theory Spec2Isabelle
  imports Main "HOL-Library.Multiset"
begin

section \<open>JavaScript strings and the JSON reader\<close>

text \<open>
  A JavaScript string is modelled as a \<open>string\<close>: a list of code units below 256.
  \<open>is_space\<close> is the class \<open>\s\<close> of a regular expression (and the set that
  \<open>String.prototype.trim\<close> removes) restricted to that range: tab, line feed,
  vertical tab, form feed, carriage return, space and no-break space.
\<close>

definition is_space :: "char \<Rightarrow> bool" where
  "is_space c \<longleftrightarrow>
     c = CHR 0x09 \<or> c = CHR 0x0A \<or> c = CHR 0x0B \<or> c = CHR 0x0C \<or> c = CHR 0x0D \<or>
     c = CHR 0x20 \<or> c = CHR 0xA0"

text \<open>The characters a \<open>.\<close> of a regular expression does not match (line terminators).\<close>

definition is_line_terminator :: "char \<Rightarrow> bool" where
  "is_line_terminator c \<longleftrightarrow> c = CHR 0x0A \<or> c = CHR 0x0D"

definition trim :: "string \<Rightarrow> string" where
  "trim s = rev (dropWhile is_space (rev (dropWhile is_space s)))"

text \<open>\<open>s.indexOf(pat) !== -1\<close>\<close>

fun contains :: "string \<Rightarrow> string \<Rightarrow> bool" where
  "contains pat [] = (pat = [])"
| "contains pat (c # cs) = (take (length pat) (c # cs) = pat \<or> contains pat cs)"

text \<open>
  \<open>JSON.parse\<close> is modelled as a reader of the JSON grammar (ECMA-404) that returns the
  syntax tree of the text. Numbers and strings are kept as their lexemes (a string
  without its quotes, escapes not decoded); a text that is not JSON gives \<open>None\<close>,
  where \<open>JSON.parse\<close> throws \<open>SyntaxError\<close>.
\<close>

datatype json =
    JNull
  | JBool bool
  | JNumber string
  | JString string
  | JArray "json list"
  | JObject "(string \<times> json) list"

definition is_json_ws :: "char \<Rightarrow> bool" where
  "is_json_ws c \<longleftrightarrow> c = CHR 0x20 \<or> c = CHR 0x09 \<or> c = CHR 0x0A \<or> c = CHR 0x0D"

definition skip_ws :: "string \<Rightarrow> string" where
  "skip_ws = dropWhile is_json_ws"

definition is_digit :: "char \<Rightarrow> bool" where
  "is_digit c \<longleftrightarrow> c \<in> set ''0123456789''"

definition is_hex :: "char \<Rightarrow> bool" where
  "is_hex c \<longleftrightarrow> c \<in> set ''0123456789abcdefABCDEF''"

definition is_simple_escape :: "char \<Rightarrow> bool" where
  "is_simple_escape c \<longleftrightarrow>
     c = CHR 0x22 \<or> c = CHR 0x5C \<or> c = CHR ''/'' \<or> c = CHR ''b'' \<or> c = CHR ''f'' \<or>
     c = CHR ''n'' \<or> c = CHR ''r'' \<or> c = CHR ''t''"

text \<open>The rest of a string after its opening quote: the lexeme and what follows the closing quote.\<close>

fun json_string_body :: "string \<Rightarrow> string \<Rightarrow> (string \<times> string) option" where
  "json_string_body acc [] = None"
| "json_string_body acc [c] = (if c = CHR 0x22 then Some (rev acc, []) else None)"
| "json_string_body acc (c # e # es) =
     (if c = CHR 0x22 then Some (rev acc, e # es)
      else if c = CHR 0x5C then
        (if is_simple_escape e then json_string_body (e # c # acc) es
         else if e = CHR ''u'' \<and> 4 \<le> length es \<and> list_all is_hex (take 4 es)
           then json_string_body (rev (take 4 es) @ e # c # acc) (drop 4 es)
         else None)
      else if (of_char c :: nat) < 0x20 then None
      else json_string_body (c # acc) (e # es))"

text \<open>
  The parts of a number: the sign, the integer part (a single \<open>0\<close>, or digits that
  start with another digit), the fraction and the exponent. Each returns its lexeme
  (empty when the part is absent) and the rest of the text.
\<close>

definition lex_sign :: "string \<Rightarrow> string \<times> string" where
  "lex_sign cs = (case cs of [] \<Rightarrow> ([], cs) | c # r \<Rightarrow> if c = CHR ''-'' then ([c], r) else ([], cs))"

definition lex_int :: "string \<Rightarrow> string \<times> string" where
  "lex_int cs =
     (case cs of
        [] \<Rightarrow> ([], cs)
      | c # r \<Rightarrow> if c = CHR ''0'' then ([c], r) else (takeWhile is_digit cs, dropWhile is_digit cs))"

definition lex_frac :: "string \<Rightarrow> string \<times> string" where
  "lex_frac cs =
     (case cs of
        [] \<Rightarrow> ([], cs)
      | c # r \<Rightarrow>
          if c = CHR ''.'' then (c # takeWhile is_digit r, dropWhile is_digit r) else ([], cs))"

definition lex_exp :: "string \<Rightarrow> string \<times> string" where
  "lex_exp cs =
     (case cs of
        [] \<Rightarrow> ([], cs)
      | c # r \<Rightarrow>
          if c = CHR ''e'' \<or> c = CHR ''E'' then
            (case r of
               [] \<Rightarrow> ([c], r)
             | s # r' \<Rightarrow>
                 if s = CHR ''+'' \<or> s = CHR ''-''
                 then (c # s # takeWhile is_digit r', dropWhile is_digit r')
                 else (c # takeWhile is_digit r, dropWhile is_digit r))
          else ([], cs))"

text \<open>
  A number: an integer part is required, a fraction has a digit after its point and
  an exponent ends in a digit.
\<close>

definition json_number :: "string \<Rightarrow> (string \<times> string) option" where
  "json_number cs =
     (let (sign, r0) = lex_sign cs;
          (ip, r1) = lex_int r0;
          (fp, r2) = lex_frac r1;
          (ep, r3) = lex_exp r2
      in if ip = [] \<or> (fp \<noteq> [] \<and> length fp < 2) \<or> (ep \<noteq> [] \<and> \<not> is_digit (last ep)) then None
         else Some (sign @ ip @ fp @ ep, r3))"

text \<open>
  The recursive descent over values, array elements and object members. The first
  argument bounds the depth of the calls; \<open>JSON_parse\<close> starts it high enough for the
  whole text: every two nested calls consume a character, and a higher bound gives
  the same result (\<open>JSON_parse_fuel\<close> below).
\<close>

fun json_value :: "nat \<Rightarrow> string \<Rightarrow> (json \<times> string) option"
  and json_elements :: "nat \<Rightarrow> json list \<Rightarrow> string \<Rightarrow> (json list \<times> string) option"
  and json_members ::
    "nat \<Rightarrow> (string \<times> json) list \<Rightarrow> string \<Rightarrow> ((string \<times> json) list \<times> string) option"
where
  "json_value 0 cs = None"
| "json_value (Suc n) cs =
     (case cs of
        [] \<Rightarrow> None
      | c # r \<Rightarrow>
          if c = CHR ''{'' then
            (case skip_ws r of
               [] \<Rightarrow> None
             | d # r' \<Rightarrow>
                 if d = CHR ''}'' then Some (JObject [], r')
                 else map_option (apfst JObject) (json_members n [] (d # r')))
          else if c = CHR ''['' then
            (case skip_ws r of
               [] \<Rightarrow> None
             | d # r' \<Rightarrow>
                 if d = CHR '']'' then Some (JArray [], r')
                 else map_option (apfst JArray) (json_elements n [] (d # r')))
          else if c = CHR 0x22 then map_option (apfst JString) (json_string_body [] r)
          else if take 4 cs = ''true'' then Some (JBool True, drop 4 cs)
          else if take 5 cs = ''false'' then Some (JBool False, drop 5 cs)
          else if take 4 cs = ''null'' then Some (JNull, drop 4 cs)
          else map_option (apfst JNumber) (json_number cs))"
| "json_elements 0 acc cs = None"
| "json_elements (Suc n) acc cs =
     (case json_value n cs of
        None \<Rightarrow> None
      | Some (v, r) \<Rightarrow>
          (case skip_ws r of
             [] \<Rightarrow> None
           | d # r' \<Rightarrow>
               if d = CHR '','' then json_elements n (acc @ [v]) (skip_ws r')
               else if d = CHR '']'' then Some (acc @ [v], r')
               else None))"
| "json_members 0 acc cs = None"
| "json_members (Suc n) acc cs =
     (case cs of
        [] \<Rightarrow> None
      | c # r \<Rightarrow>
          if c \<noteq> CHR 0x22 then None
          else
            (case json_string_body [] r of
               None \<Rightarrow> None
             | Some (k, r1) \<Rightarrow>
                 (case skip_ws r1 of
                    [] \<Rightarrow> None
                  | d # r2 \<Rightarrow>
                      if d \<noteq> CHR '':'' then None
                      else
                        (case json_value n (skip_ws r2) of
                           None \<Rightarrow> None
                         | Some (v, r3) \<Rightarrow>
                             (case skip_ws r3 of
                                [] \<Rightarrow> None
                              | e # r4 \<Rightarrow>
                                  if e = CHR '','' then json_members n (acc @ [(k, v)]) (skip_ws r4)
                                  else if e = CHR ''}'' then Some (acc @ [(k, v)], r4)
                                  else None)))))"

definition JSON_parse :: "string \<Rightarrow> json option" where
  "JSON_parse s =
     (case json_value (2 * length s + 2) (skip_ws s) of
        None \<Rightarrow> None
      | Some (v, r) \<Rightarrow> if skip_ws r = [] then Some v else None)"

text \<open>A value, a sequence of elements and a sequence of members consume some of the text.\<close>

lemma skip_ws_length: "length (skip_ws cs) \<le> length cs"
  by (simp add: skip_ws_def length_dropWhile_le)

lemma json_string_body_shorter:
  "json_string_body acc cs = Some (k, r) \<Longrightarrow> length r < length cs"
  by (induction acc cs rule: json_string_body.induct) (auto split: if_splits)

lemma lex_sign_length: "lex_sign cs = (l, r) \<Longrightarrow> length r \<le> length cs"
  by (auto simp: lex_sign_def split: list.splits if_splits)

lemma lex_int_length: "lex_int cs = (l, r) \<Longrightarrow> l \<noteq> [] \<Longrightarrow> length r < length cs"
proof -
  assume a: "lex_int cs = (l, r)" and l: "l \<noteq> []"
  show ?thesis
  proof (cases cs)
    case Nil
    with a l show ?thesis by (simp add: lex_int_def)
  next
    case (Cons c cs')
    show ?thesis
    proof (cases "c = CHR ''0''")
      case True
      with a Cons show ?thesis by (auto simp: lex_int_def)
    next
      case False
      with a Cons have tl: "l = takeWhile is_digit cs" and tr: "r = dropWhile is_digit cs"
        by (auto simp: lex_int_def)
      have sum: "length (takeWhile is_digit cs) + length (dropWhile is_digit cs) = length cs"
        by (metis length_append takeWhile_dropWhile_id)
      from l tl have "0 < length (takeWhile is_digit cs)" by simp
      with sum show ?thesis unfolding tr by linarith
    qed
  qed
qed

lemma lex_frac_length: "lex_frac cs = (l, r) \<Longrightarrow> length r \<le> length cs"
proof -
  have "\<And>xs. length (dropWhile is_digit xs) \<le> length xs" by (rule length_dropWhile_le)
  then have "\<And>x xs. length (dropWhile is_digit xs) \<le> Suc (length xs)" by (simp add: le_SucI)
  then show "lex_frac cs = (l, r) \<Longrightarrow> length r \<le> length cs"
    by (auto simp: lex_frac_def split: list.splits if_splits)
qed

lemma lex_exp_length: "lex_exp cs = (l, r) \<Longrightarrow> length r \<le> length cs"
proof -
  have a: "\<And>xs. length (dropWhile is_digit xs) \<le> length xs" by (rule length_dropWhile_le)
  then have b: "\<And>xs. length (dropWhile is_digit xs) \<le> Suc (length xs)" by (simp add: le_SucI)
  then have c: "\<And>xs. length (dropWhile is_digit xs) \<le> Suc (Suc (length xs))" by (simp add: le_SucI)
  assume "lex_exp cs = (l, r)"
  then show "length r \<le> length cs"
    using a b c by (auto simp: lex_exp_def split: list.splits if_splits)
qed

lemma json_number_shorter:
  assumes "json_number cs = Some (l, r)"
  shows "length r < length cs"
proof -
  obtain sign r0 where s: "lex_sign cs = (sign, r0)" by (cases "lex_sign cs")
  obtain ip r1 where i: "lex_int r0 = (ip, r1)" by (cases "lex_int r0")
  obtain fp r2 where f: "lex_frac r1 = (fp, r2)" by (cases "lex_frac r1")
  obtain ep r3 where e: "lex_exp r2 = (ep, r3)" by (cases "lex_exp r2")
  from assms s i f e have "ip \<noteq> []" and "r = r3"
    by (auto simp: json_number_def split: if_splits)
  with lex_sign_length [OF s] lex_int_length [OF i] lex_frac_length [OF f] lex_exp_length [OF e]
  show ?thesis by simp
qed

lemma json_shorter:
  "(\<forall>cs v r. json_value n cs = Some (v, r) \<longrightarrow> length r < length cs) \<and>
   (\<forall>cs acc vs r. json_elements n acc cs = Some (vs, r) \<longrightarrow> length r < length cs) \<and>
   (\<forall>cs acc ms r. json_members n acc cs = Some (ms, r) \<longrightarrow> length r < length cs)"
proof (induction n)
  case 0
  show ?case by simp
next
  case (Suc n)
  from Suc have ihv: "\<And>cs v r. json_value n cs = Some (v, r) \<Longrightarrow> length r < length cs"
    and ihe: "\<And>cs acc vs r. json_elements n acc cs = Some (vs, r) \<Longrightarrow> length r < length cs"
    and ihm: "\<And>cs acc ms r. json_members n acc cs = Some (ms, r) \<Longrightarrow> length r < length cs"
    by blast+
  have v: "length r < length cs" if "json_value (Suc n) cs = Some (v, r)" for cs v r
  proof (cases cs)
    case Nil
    with that show ?thesis by simp
  next
    case (Cons c t)
    have ws: "length (skip_ws t) \<le> length t" by (rule skip_ws_length)
    show ?thesis
    proof (cases "c = CHR ''{''")
      case True
      show ?thesis
      proof (cases "skip_ws t")
        case Nil
        with that Cons True show ?thesis by simp
      next
        case (Cons d t')
        show ?thesis
        proof (cases "d = CHR ''}''")
          case True
          with that \<open>cs = c # t\<close> \<open>c = CHR ''{''\<close> Cons ws show ?thesis by auto
        next
          case False
          with that \<open>cs = c # t\<close> \<open>c = CHR ''{''\<close> Cons
          obtain ms where "json_members n [] (d # t') = Some (ms, r)" by auto
          from ihm [OF this] Cons ws \<open>cs = c # t\<close> show ?thesis by simp
        qed
      qed
    next
      case nb: False
      show ?thesis
      proof (cases "c = CHR ''[''")
        case True
        show ?thesis
        proof (cases "skip_ws t")
          case Nil
          with that Cons True show ?thesis by simp
        next
          case (Cons d t')
          show ?thesis
          proof (cases "d = CHR '']''")
            case True
            with that \<open>cs = c # t\<close> \<open>c = CHR ''[''\<close> Cons ws show ?thesis by auto
          next
            case False
            with that \<open>cs = c # t\<close> \<open>c = CHR ''[''\<close> Cons
            obtain vs where "json_elements n [] (d # t') = Some (vs, r)" by auto
            from ihe [OF this] Cons ws \<open>cs = c # t\<close> show ?thesis by simp
          qed
        qed
      next
        case na: False
        show ?thesis
        proof (cases "c = CHR 0x22")
          case True
          with that Cons nb na obtain k where "json_string_body [] t = Some (k, r)" by auto
          from json_string_body_shorter [OF this] Cons show ?thesis by simp
        next
          case nq: False
          from that Cons nb na nq
          consider "r = drop 4 cs" | "r = drop 5 cs" | l where "json_number cs = Some (l, r)"
            by (auto split: if_splits)
          then show ?thesis
          proof cases
            case 1 with Cons show ?thesis by simp
          next
            case 2 with Cons show ?thesis by simp
          next
            case 3 from json_number_shorter [OF this] show ?thesis .
          qed
        qed
      qed
    qed
  qed
  have e: "length r < length cs" if "json_elements (Suc n) acc cs = Some (vs, r)" for cs acc vs r
  proof -
    from that obtain v r1 where a: "json_value n cs = Some (v, r1)"
      by (auto split: option.splits)
    from ihv [OF a] have l1: "length r1 < length cs" .
    have ws: "length (skip_ws r1) \<le> length r1" by (rule skip_ws_length)
    from that a obtain d r2 where b: "skip_ws r1 = d # r2"
      by (auto split: list.splits)
    show ?thesis
    proof (cases "d = CHR '',''")
      case True
      with that a b have "json_elements n (acc @ [v]) (skip_ws r2) = Some (vs, r)" by simp
      from ihe [OF this] skip_ws_length [of r2] b ws l1 show ?thesis by simp
    next
      case False
      with that a b have "r = r2" by (auto split: if_splits)
      with b ws l1 show ?thesis by simp
    qed
  qed
  have m: "length r < length cs" if "json_members (Suc n) acc cs = Some (ms, r)" for cs acc ms r
  proof -
    from that obtain t where c: "cs = CHR 0x22 # t"
      by (cases cs) (auto split: if_splits)
    from that c obtain k r1 where a: "json_string_body [] t = Some (k, r1)"
      by (auto split: option.splits)
    from json_string_body_shorter [OF a] have l1: "length r1 < length t" .
    from that c a obtain r2 where b: "skip_ws r1 = CHR '':'' # r2"
      by (auto split: list.splits if_splits)
    from that c a b obtain v r3 where d: "json_value n (skip_ws r2) = Some (v, r3)"
      by (auto split: option.splits)
    from ihv [OF d] have l3: "length r3 < length (skip_ws r2)" .
    from that c a b d obtain e r4 where f: "skip_ws r3 = e # r4"
      by (auto split: list.splits)
    have l4: "length r4 < length cs"
      using skip_ws_length [of r1] skip_ws_length [of r2] skip_ws_length [of r3] l1 l3 b f c
      by simp
    show ?thesis
    proof (cases "e = CHR '',''")
      case True
      with that c a b d f have "json_members n (acc @ [(k, v)]) (skip_ws r4) = Some (ms, r)" by simp
      from ihm [OF this] skip_ws_length [of r4] l4 show ?thesis by simp
    next
      case False
      with that c a b d f have "r = r4" by (auto split: if_splits)
      with l4 show ?thesis by simp
    qed
  qed
  from v e m show ?case by blast
qed


text \<open>The bound is high enough: the reader gives the same result with any higher bound.\<close>

lemma json_value_Nil: "json_value m [] = None"
  by (cases m) simp_all

lemma json_fuel:
  "(\<forall>cs m. 2 * length cs \<le> n \<and> n \<le> m \<longrightarrow> json_value m cs = json_value n cs) \<and>
   (\<forall>cs acc m. 2 * length cs + 1 \<le> n \<and> n \<le> m \<longrightarrow> json_elements m acc cs = json_elements n acc cs) \<and>
   (\<forall>cs acc m. 2 * length cs + 1 \<le> n \<and> n \<le> m \<longrightarrow> json_members m acc cs = json_members n acc cs)"
proof (induction n)
  case 0
  show ?case by (simp add: json_value_Nil)
next
  case (Suc n)
  from Suc have ihv: "\<And>cs m. 2 * length cs \<le> n \<Longrightarrow> n \<le> m \<Longrightarrow> json_value m cs = json_value n cs"
    and ihe: "\<And>cs acc m. 2 * length cs + 1 \<le> n \<Longrightarrow> n \<le> m \<Longrightarrow>
        json_elements m acc cs = json_elements n acc cs"
    and ihm: "\<And>cs acc m. 2 * length cs + 1 \<le> n \<Longrightarrow> n \<le> m \<Longrightarrow>
        json_members m acc cs = json_members n acc cs"
    by blast+
  have v: "json_value m cs = json_value (Suc n) cs" if b: "2 * length cs \<le> Suc n" and "Suc n \<le> m"
    for cs m
  proof -
    from that obtain k where m: "m = Suc k" and k: "n \<le> k" by (cases m) auto
    show ?thesis
    proof (cases cs)
      case Nil
      then show ?thesis by (simp add: json_value_Nil)
    next
      case (Cons c t)
      have sub: "2 * length u + 1 \<le> n" if "length u \<le> length t" for u
        using that b Cons by simp
      have e: "json_elements k acc (skip_ws t) = json_elements n acc (skip_ws t)" for acc
        by (rule ihe [OF sub [OF skip_ws_length] k])
      have mm: "json_members k acc (skip_ws t) = json_members n acc (skip_ws t)" for acc
        by (rule ihm [OF sub [OF skip_ws_length] k])
      show ?thesis
      proof (cases "skip_ws t")
        case Nil
        with Cons m show ?thesis by simp
      next
        case ws: (Cons d t')
        from e [of "[]"] mm [of "[]"] ws Cons m show ?thesis by auto
      qed
    qed
  qed
  have e: "json_elements m acc cs = json_elements (Suc n) acc cs"
    if b: "2 * length cs + 1 \<le> Suc n" and "Suc n \<le> m" for cs acc m
  proof -
    from that obtain k where m: "m = Suc k" and k: "n \<le> k" by (cases m) auto
    from b have "2 * length cs \<le> n" by simp
    from ihv [OF this k] have same: "json_value k cs = json_value n cs" .
    show ?thesis
    proof (cases "json_value n cs")
      case None
      with same m show ?thesis by simp
    next
      case (Some p)
      obtain v r1 where p: "p = (v, r1)" by (cases p)
      from json_shorter [of n] Some p have l1: "length r1 < length cs" by blast
      have "json_elements k acc' (skip_ws r2) = json_elements n acc' (skip_ws r2)"
        if "skip_ws r1 = d # r2" for acc' d r2
      proof (rule ihe [OF _ k])
        from that skip_ws_length [of r1] have "length r2 < length r1" by simp
        with skip_ws_length [of r2] l1 b show "2 * length (skip_ws r2) + 1 \<le> n" by simp
      qed
      with same Some p m show ?thesis
        by (simp split: list.splits)
    qed
  qed
  have mb: "json_members m acc cs = json_members (Suc n) acc cs"
    if b: "2 * length cs + 1 \<le> Suc n" and "Suc n \<le> m" for cs acc m
  proof -
    from that obtain k where m: "m = Suc k" and k: "n \<le> k" by (cases m) auto
    have inner: "json_value k (skip_ws r2) = json_value n (skip_ws r2) \<and>
        (\<forall>v r3 e r4 acc'. json_value n (skip_ws r2) = Some (v, r3) \<longrightarrow> skip_ws r3 = e # r4 \<longrightarrow>
           json_members k acc' (skip_ws r4) = json_members n acc' (skip_ws r4))"
      if c: "cs = c # t" and s: "json_string_body [] t = Some (key, r1)" and w: "skip_ws r1 = d # r2"
      for c t key r1 d r2
    proof (intro conjI allI impI)
      from json_string_body_shorter [OF s] have l1: "length r1 < length t" .
      from w skip_ws_length [of r1] have l2: "length r2 < length r1" by simp
      from l1 l2 c b skip_ws_length [of r2] have "2 * length (skip_ws r2) \<le> n" by simp
      then show "json_value k (skip_ws r2) = json_value n (skip_ws r2)" by (rule ihv [OF _ k])
      fix v r3 e r4 acc'
      assume a: "json_value n (skip_ws r2) = Some (v, r3)" and f: "skip_ws r3 = e # r4"
      from json_shorter [of n] a have l3: "length r3 < length (skip_ws r2)" by blast
      from f skip_ws_length [of r3] have l4: "length r4 < length r3" by simp
      from l1 l2 l3 l4 c b skip_ws_length [of r2] skip_ws_length [of r4]
      have "2 * length (skip_ws r4) + 1 \<le> n" by simp
      then show "json_members k acc' (skip_ws r4) = json_members n acc' (skip_ws r4)"
        by (rule ihm [OF _ k])
    qed
    show ?thesis
    proof (cases cs)
      case Nil
      with m show ?thesis by simp
    next
      case (Cons c t)
      show ?thesis
      proof (cases "json_string_body [] t")
        case None
        with Cons m show ?thesis by simp
      next
        case (Some p)
        obtain key r1 where p: "p = (key, r1)" by (cases p)
        show ?thesis
        proof (cases "skip_ws r1")
          case Nil
          with Cons Some p m show ?thesis by simp
        next
          case ws: (Cons d r2)
          from inner [OF Cons Some [unfolded p] ws]
          have iv: "json_value k (skip_ws r2) = json_value n (skip_ws r2)"
            and im: "\<And>v r3 e r4 acc'. json_value n (skip_ws r2) = Some (v, r3) \<Longrightarrow>
              skip_ws r3 = e # r4 \<Longrightarrow>
              json_members k acc' (skip_ws r4) = json_members n acc' (skip_ws r4)"
            by blast+
          show ?thesis
          proof (cases "json_value n (skip_ws r2)")
            case None
            with Cons Some p ws iv m show ?thesis by simp
          next
            case sv: (Some q)
            obtain v r3 where q: "q = (v, r3)" by (cases q)
            show ?thesis
            proof (cases "skip_ws r3")
              case Nil
              with Cons Some p ws iv sv q m show ?thesis by simp
            next
              case w3: (Cons e r4)
              from im [OF sv [unfolded q] w3] Cons Some p ws iv sv q w3 m show ?thesis by simp
            qed
          qed
        qed
      qed
    qed
  qed
  from v e mb show ?case by blast
qed

lemma JSON_parse_fuel:
  assumes "2 * length s + 2 \<le> n"
  shows "(case json_value n (skip_ws s) of
            None \<Rightarrow> None
          | Some (v, r) \<Rightarrow> if skip_ws r = [] then Some v else None) = JSON_parse s"
proof -
  have "2 * length (skip_ws s) \<le> 2 * length s + 2"
    using skip_ws_length [of s] by simp
  with json_fuel [of "2 * length s + 2"] assms
  have "json_value n (skip_ws s) = json_value (2 * length s + 2) (skip_ws s)" by blast
  then show ?thesis by (simp add: JSON_parse_def)
qed

section \<open>Errors\<close>

text \<open>
  What ends an operation early: \<open>throw new Error(msg)\<close>, the \<open>SyntaxError\<close> of
  \<open>JSON.parse\<close>, a \<open>TypeError\<close> of the runtime, the failure of an external tool or
  capability, and \<open>process.exit(code)\<close>.
\<close>

datatype error =
    Error string
  | SyntaxError
  | TypeError
  | ToolFailure string
  | ProcessExit int

section \<open>The repair of the diff tool's output (\<open>runOad\<close>)\<close>

text \<open>
  The regular expression \<open>/}\s+{/\<close> at a closing brace: \<open>gap_rest cs\<close> is what follows
  the match when \<open>cs\<close>, the text after the brace, starts with one or more white-space
  characters and an opening brace. (\<open>\s+\<close> is greedy, and no shorter run of white
  space is followed by an opening brace.)
\<close>

definition gap_rest :: "string \<Rightarrow> string option" where
  "gap_rest cs =
     (case dropWhile is_space cs of
        [] \<Rightarrow> None
      | d # r \<Rightarrow> if d = CHR ''{'' \<and> takeWhile is_space cs \<noteq> [] then Some r else None)"

lemma gap_rest_shorter: "gap_rest cs = Some r \<Longrightarrow> length r < length cs"
proof -
  assume h: "gap_rest cs = Some r"
  then obtain d where "dropWhile is_space cs = d # r"
    by (auto simp: gap_rest_def split: list.splits if_splits)
  then have "length (dropWhile is_space cs) = Suc (length r)" by simp
  moreover have "length (dropWhile is_space cs) \<le> length cs" by (rule length_dropWhile_le)
  ultimately show ?thesis by simp
qed

text \<open>\<open>result.replace(/}\s+{/gi, "},{")\<close>: every match, left to right, without overlap.\<close>

function oad_fixup :: "string \<Rightarrow> string" where
  "oad_fixup [] = []"
| "oad_fixup (c # cs) =
     (if c = CHR ''}'' then
        (case gap_rest cs of
           Some r \<Rightarrow> ''},{'' @ oad_fixup r
         | None \<Rightarrow> c # oad_fixup cs)
      else c # oad_fixup cs)"
  by pat_completeness auto
termination
  by (relation "measure length") (auto dest: gap_rest_shorter)

text \<open>The parameter check that opens \<open>runOad\<close>, \<open>processViaAutoRest\<close> and \<open>getLinterResult\<close>.\<close>

definition is_blank :: "string option \<Rightarrow> bool" where
  "is_blank p = (case p of None \<Rightarrow> True | Some s \<Rightarrow> trim s = [])"

text \<open>
  \<open>runOad\<close>. The diff tool \<open>oad.compare\<close> is a parameter: the text it prints, or its
  failure. An empty text is falsy and gives \<open>undefined\<close> (\<open>None\<close>).
\<close>

definition runOad ::
  "(string \<Rightarrow> string \<Rightarrow> error + string) \<Rightarrow> string option \<Rightarrow> string option \<Rightarrow> error + json option"
where
  \<open>runOad compare oldSpec newSpec =
     (if is_blank oldSpec then
        Inl (Error ''oldSpec is a required parameter of type "string" and it cannot be an empty string.'')
      else if is_blank newSpec then
        Inl (Error ''newSpec is a required parameter of type "string" and it cannot be an empty string.'')
      else
        (case compare (the oldSpec) (the newSpec) of
           Inl e \<Rightarrow> Inl e
         | Inr result \<Rightarrow>
             if result = [] then Inr None
             else
               (case JSON_parse (''['' @ oad_fixup result @ '']'') of
                  None \<Rightarrow> Inl SyntaxError
                | Some v \<Rightarrow> Inr (Some v))))\<close>

section \<open>The linter run (\<open>getLinterResult\<close>)\<close>

text \<open>
  The regular expression \<open>/Processing batch task - {.*} \.\n/\<close> at the start of a text:
  the literal prefix, then the rest of the line, which has to end in \<open>} .\<close> and be closed
  by a line feed. \<open>noise_rest s\<close> is what follows the match.
\<close>

definition noise_prefix :: string where
  "noise_prefix = ''Processing batch task - {''"

definition noise_rest :: "string \<Rightarrow> string option" where
  "noise_rest s =
     (if take (length noise_prefix) s = noise_prefix then
        (let t = drop (length noise_prefix) s;
             l = takeWhile (\<lambda>c. \<not> is_line_terminator c) t
         in case dropWhile (\<lambda>c. \<not> is_line_terminator c) t of
              [] \<Rightarrow> None
            | d # r \<Rightarrow>
                if d = CHR 0x0A \<and> 3 \<le> length l \<and> drop (length l - 3) l = ''} .''
                then Some r else None)
      else None)"

lemma noise_rest_shorter: "noise_rest s = Some r \<Longrightarrow> length r < length s"
proof -
  let ?t = "drop (length noise_prefix) s"
  assume "noise_rest s = Some r"
  then obtain d where "dropWhile (\<lambda>c. \<not> is_line_terminator c) ?t = d # r"
    by (auto simp: noise_rest_def Let_def split: if_splits list.splits)
  then have "length (dropWhile (\<lambda>c. \<not> is_line_terminator c) ?t) = Suc (length r)" by simp
  moreover have "length (dropWhile (\<lambda>c. \<not> is_line_terminator c) ?t) \<le> length ?t"
    by (rule length_dropWhile_le)
  ultimately show ?thesis by simp
qed

text \<open>\<open>resultString.replace(/Processing batch task - {.*} \.\n/g, "")\<close>\<close>

function strip_noise :: "string \<Rightarrow> string" where
  "strip_noise [] = []"
| "strip_noise (c # cs) =
     (case noise_rest (c # cs) of
        Some r \<Rightarrow> strip_noise r
      | None \<Rightarrow> c # strip_noise cs)"
  by pat_completeness auto
termination
  by (relation "measure length") (auto dest: noise_rest_shorter)

text \<open>\<open>.replace(/\}\n\{/g, "},\n{")\<close>: a comma only between a brace, one line feed and a brace.\<close>

fun join_lines :: "string \<Rightarrow> string" where
  "join_lines (a # b # c # cs) =
     (if a = CHR ''}'' \<and> b = CHR 0x0A \<and> c = CHR ''{''
      then a # CHR '','' # b # c # join_lines cs
      else a # join_lines (b # c # cs))"
| "join_lines cs = cs"

text \<open>
  \<open>resultString.substring(resultString.indexOf('{'))\<close>: from the first opening brace;
  the whole text when there is none (\<open>substring(-1)\<close> starts at 0).
\<close>

definition from_first_brace :: "string \<Rightarrow> string" where
  "from_first_brace s = (if CHR ''{'' \<in> set s then dropWhile (\<lambda>c. c \<noteq> CHR ''{'') s else s)"

text \<open>The text handed to \<open>JSON.parse\<close> by \<open>getLinterResult\<close>.\<close>

definition linter_fixup :: "string \<Rightarrow> string" where
  "linter_fixup resultString =
     ''['' @ join_lines (trim (from_first_brace (strip_noise resultString))) @ '']''"

text \<open>
  The working tree a linter run reads: which paths exist (\<open>fs.existsSync\<close>) and what
  a command prints (\<open>child_process.exec\<close>: whether it reported an error, its standard
  output and its standard error).
\<close>

record exec_result =
  err :: bool
  stdout :: string
  stderr :: string

record tree =
  existsSync :: "string \<Rightarrow> bool"
  exec :: "string \<Rightarrow> exec_result"

definition linterCmd :: string where
  "linterCmd = ''npx autorest --validation --azure-validator --message-format=json ''"

text \<open>
  The end of \<open>getLinterResult\<close>, from \<open>let resultString = stdout + stderr\<close> on: the
  findings parsed from the text the tool printed (\<open>JArray []\<close> is the empty sequence
  \<open>[]\<close>). A text that does not parse ends the process: \<open>process.exit(1)\<close>.
\<close>

definition repairLinterOutput :: "string \<Rightarrow> error + json" where
  "repairLinterOutput resultString =
     (if CHR ''{'' \<in> set resultString then
        (case JSON_parse (linter_fixup resultString) of
           Some jsonResult \<Rightarrow> Inr jsonResult
         | None \<Rightarrow> Inl (ProcessExit 1))
      else Inr (JArray []))"

text \<open>\<open>getLinterResult\<close>: the commands it executed, and its outcome.\<close>

definition getLinterResult :: "tree \<Rightarrow> string option \<Rightarrow> string list \<times> (error + json)" where
  \<open>getLinterResult t swaggerPath =
     (if is_blank swaggerPath then
        ([], Inl (Error ''swaggerPath is a required parameter of type "string" and it cannot be an empty string.''))
      else if \<not> existsSync t (the swaggerPath) then ([], Inr (JArray []))
      else
        (let cmd = ''npx autorest --reset && '' @ linterCmd @ the swaggerPath;
             r = exec t cmd
         in if err r \<and> contains ''Process() cancelled due to exception'' (stderr r) then
              ([cmd], Inl (Error ''AutoRest failed''))
            else ([cmd], repairLinterOutput (stdout r @ stderr r))))\<close>

text \<open>
  A text that starts with an opening bracket parses to an array or not at all, so the
  values \<open>runOad\<close> and \<open>getLinterResult\<close> return are arrays.
\<close>

lemma JSON_parse_bracket:
  assumes "JSON_parse (CHR ''['' # s) = Some v"
  shows "\<exists>vs. v = JArray vs"
proof -
  obtain n where n: "2 * length (CHR ''['' # s) + 2 = Suc n" by simp
  have ws: "skip_ws (CHR ''['' # s) = CHR ''['' # s"
    by (simp add: skip_ws_def is_json_ws_def)
  from assms obtain r where "json_value (Suc n) (CHR ''['' # s) = Some (v, r)"
    unfolding JSON_parse_def n ws by (auto split: option.splits if_splits)
  then show ?thesis
    by (auto split: list.splits if_splits)
qed

section \<open>The breaking-change run\<close>

text \<open>
  A finding of the diff tool, as the type \<open>Diff\<close> declares it: \<open>type\<close>, \<open>id\<close>, \<open>code\<close>
  and \<open>message\<close>. The tool writes the severity \<open>type\<close> as one of the strings
  \<open>Error\<close>, \<open>Warning\<close> and \<open>Info\<close>; the code compares it with \<open>===\<close>.
\<close>

record Diff =
  diff_type :: string
  diff_id :: string
  diff_code :: string
  diff_message :: string

text \<open>
  The state of the second loop of \<open>runScript\<close> (the counters \<open>errors\<close> and \<open>warnings\<close>,
  \<open>diffFiles\<close>, \<open>newFiles\<close>) and \<open>process.exitCode\<close>.
\<close>

record run_state =
  errors :: nat
  warnings :: nat
  diffFiles :: "string \<rightharpoonup> Diff list"
  newFiles :: "string list"
  exitCode :: int

definition initial_state :: "int \<Rightarrow> run_state" where
  "initial_state code =
     \<lparr>errors = 0, warnings = 0, diffFiles = Map.empty, newFiles = [], exitCode = code\<rparr>"

text \<open>\<open>for (const diff of diffs)\<close>: the counting of one file's findings.\<close>

fun count_diffs :: "Diff list \<Rightarrow> run_state \<Rightarrow> run_state" where
  "count_diffs [] st = st"
| "count_diffs (diff # diffs) st =
     count_diffs diffs
       (if diff_type diff = ''Error'' then
          st\<lparr>exitCode := (if errors st = 0 then 1 else exitCode st), errors := errors st + 1\<rparr>
        else if diff_type diff = ''Warning'' then st\<lparr>warnings := warnings st + 1\<rparr>
        else st)"

text \<open>
  \<open>for (const swagger of swaggersToProcess)\<close>, the loop that fills \<open>diffFiles\<close> and
  \<open>newFiles\<close>. Its inputs are the diff tool \<open>compare\<close>, the reading \<open>asDiff\<close> of a parsed
  record at the type \<open>Diff\<close> (the code reads the fields of the parsed value unchecked),
  the list \<open>newSwaggers\<close> and the map \<open>resolvedMapForNewSpecs\<close> that the earlier steps of
  \<open>runScript\<close> computed. An exception of \<open>runOad\<close> is not caught: it ends the run. The
  last case of the value is not reached (see \<open>JSON_parse_bracket\<close>).
\<close>

fun diff_loop ::
  "(string \<Rightarrow> string \<Rightarrow> error + string) \<Rightarrow> (json \<Rightarrow> Diff) \<Rightarrow> string list \<Rightarrow>
   (string \<rightharpoonup> string) \<Rightarrow> string list \<Rightarrow> run_state \<Rightarrow> error + run_state"
where
  "diff_loop compare asDiff newSwaggers resolvedMapForNewSpecs [] st = Inr st"
| "diff_loop compare asDiff newSwaggers resolvedMapForNewSpecs (swagger # rest) st =
     (if swagger \<in> set newSwaggers then
        diff_loop compare asDiff newSwaggers resolvedMapForNewSpecs rest
          (st\<lparr>newFiles := newFiles st @ [swagger]\<rparr>)
      else
        (case resolvedMapForNewSpecs swagger of
           None \<Rightarrow> diff_loop compare asDiff newSwaggers resolvedMapForNewSpecs rest st
         | Some resolved \<Rightarrow>
             if resolved = [] then
               diff_loop compare asDiff newSwaggers resolvedMapForNewSpecs rest st
             else
               (case runOad compare (Some swagger) (Some resolved) of
                  Inl e \<Rightarrow> Inl e
                | Inr None \<Rightarrow> diff_loop compare asDiff newSwaggers resolvedMapForNewSpecs rest st
                | Inr (Some (JArray vs)) \<Rightarrow>
                    diff_loop compare asDiff newSwaggers resolvedMapForNewSpecs rest
                      (count_diffs (map asDiff vs)
                         (st\<lparr>diffFiles := (diffFiles st)(swagger \<mapsto> map asDiff vs)\<rparr>))
                | Inr (Some _) \<Rightarrow> Inl TypeError)))"

text \<open>\<open>String(n)\<close> for a natural number and for an integer: the decimal digits.\<close>

definition digit_char :: "nat \<Rightarrow> char" where
  "digit_char d = ''0123456789'' ! d"

function String_nat :: "nat \<Rightarrow> string" where
  "String_nat n = (if n < 10 then [digit_char n] else String_nat (n div 10) @ [digit_char (n mod 10)])"
  by pat_completeness auto
termination
  by (relation "measure id") auto

declare String_nat.simps [simp del]

definition String_int :: "int \<Rightarrow> string" where
  "String_int i = (if i < 0 then CHR ''-'' # String_nat (nat (- i)) else String_nat (nat i))"

text \<open>The title of the report: \<open>${errors === 0 ? 'No' : errors} potential breaking change${errors !== 1 ? 's' : ''}\<close>\<close>

definition title :: "nat \<Rightarrow> string" where
  "title n =
     (if n = 0 then ''No'' else String_nat n) @ '' potential breaking change'' @
     (if n \<noteq> 1 then ''s'' else [])"

text \<open>
  The comparator of \<open>diffs.sort\<close>. \<open>String.prototype.localeCompare\<close> is a parameter:
  a negative number, zero or a positive number.
\<close>

definition diff_comparator :: "(string \<Rightarrow> string \<Rightarrow> int) \<Rightarrow> Diff \<Rightarrow> Diff \<Rightarrow> int" where
  "diff_comparator localeCompare a b =
     (if diff_type a = diff_type b then localeCompare (diff_id a) (diff_id b)
      else if diff_type a = ''Error'' then 1
      else if diff_type b = ''Error'' then - 1
      else if diff_type a = ''Warning'' then 1
      else - 1)"

text \<open>
  The stable order of a list by a comparator: the insertion sort that puts an element
  before the first one it does not follow. ECMAScript 2019 makes
  \<open>Array.prototype.sort(comparator)\<close> stable, so this is the order the method returns
  when the comparator is a consistent comparison function for the elements; with any
  other comparator the order is implementation-defined (\<open>Array_prototype_sort\<close> below).
\<close>

fun insert_sorted :: "('a \<Rightarrow> 'a \<Rightarrow> int) \<Rightarrow> 'a \<Rightarrow> 'a list \<Rightarrow> 'a list" where
  "insert_sorted c x [] = [x]"
| "insert_sorted c x (y # ys) = (if c x y \<le> 0 then x # y # ys else y # insert_sorted c x ys)"

definition array_sort :: "('a \<Rightarrow> 'a \<Rightarrow> int) \<Rightarrow> 'a list \<Rightarrow> 'a list" where
  "array_sort c xs = foldr (insert_sorted c) xs []"

text \<open>The findings of a file in the stable order of the comparator of \<open>runScript\<close>.\<close>

definition sort_diffs :: "(string \<Rightarrow> string \<Rightarrow> int) \<Rightarrow> Diff list \<Rightarrow> Diff list" where
  "sort_diffs localeCompare diffs = array_sort (diff_comparator localeCompare) diffs"

text \<open>
  The comparator is a consistent comparison function for the elements of a list, as
  ECMAScript defines it (22.1.3.27): an element compares equal to itself, equality is
  symmetric, and equality, less and greater are transitive.
\<close>

definition consistent_on :: "('a \<Rightarrow> 'a \<Rightarrow> int) \<Rightarrow> 'a list \<Rightarrow> bool" where
  "consistent_on c xs \<longleftrightarrow>
     list_all (\<lambda>a. c a a = 0 \<and>
       list_all (\<lambda>b. (c a b = 0 \<longrightarrow> c b a = 0) \<and>
         list_all (\<lambda>d. (c a b = 0 \<and> c b d = 0 \<longrightarrow> c a d = 0) \<and>
                        (c a b < 0 \<and> c b d < 0 \<longrightarrow> c a d < 0) \<and>
                        (c a b > 0 \<and> c b d > 0 \<longrightarrow> c a d > 0)) xs) xs) xs"



section \<open>The linter run before and after (\<open>runTools\<close>, \<open>updateResult\<close>, \<open>runScript\<close>)\<close>

text \<open>
  \<open>finalResult.files\<close>: for a file, the findings of each phase (\<open>before\<close>, \<open>after\<close>).
  File paths are the keys; the names every JavaScript object inherits are not paths.
  The state carries the trace of what the run did, in order: the calls of
  \<open>runTools\<close>, the commands executed and the checkouts; and what \<open>writeContent\<close> wrote.
\<close>

datatype event =
    RunTools string string
  | Exec string
  | Checkout string

record linter_state =
  files :: "string \<rightharpoonup> (string \<rightharpoonup> json)"
  events :: "event list"
  written :: "(string \<rightharpoonup> (string \<rightharpoonup> json)) option"

text \<open>
  \<open>updateResult\<close>: an entry for the file is made when there is none, and the findings
  become its entry for the phase (the empty object the code stores there first is
  overwritten at once).
\<close>

definition updateResult :: "string \<Rightarrow> json \<Rightarrow> string \<Rightarrow> linter_state \<Rightarrow> linter_state" where
  "updateResult spec errs beforeOrAfter st =
     (let files1 = (if files st spec = None then (files st)(spec \<mapsto> Map.empty) else files st);
          filesSpec = the (files1 spec)
      in st\<lparr>files := files1(spec \<mapsto> filesSpec(beforeOrAfter \<mapsto> errs))\<rparr>)"

text \<open>
  \<open>runTools\<close> in a working tree. An operation of the run returns the error that ended
  it, if any, beside the state it reached.
\<close>

definition runTools ::
  "tree \<Rightarrow> string \<Rightarrow> string \<Rightarrow> linter_state \<Rightarrow> error option \<times> linter_state"
where
  "runTools t swagger beforeOrAfter st =
     (let (cmds, r) = getLinterResult t (Some swagger);
          st1 = st\<lparr>events := events st @ RunTools swagger beforeOrAfter # map Exec cmds\<rparr>
      in case r of
           Inl e \<Rightarrow> (Some e, st1)
         | Inr linterErrors \<Rightarrow> (None, updateResult swagger linterErrors beforeOrAfter st1))"

text \<open>\<open>for (const x of xs) await f(x)\<close>: the first failure ends the loop.\<close>

fun forEach :: "('a \<Rightarrow> 's \<Rightarrow> error option \<times> 's) \<Rightarrow> 'a list \<Rightarrow> 's \<Rightarrow> error option \<times> 's" where
  "forEach f [] st = (None, st)"
| "forEach f (x # xs) st =
     (case f x st of
        (Some e, st1) \<Rightarrow> (Some e, st1)
      | (None, st1) \<Rightarrow> forEach f xs st1)"

text \<open>
  Modelled from the spec: \<open>utils.doOnBranch\<close> is not among the sources. It takes a
  branch and an operation, materialises the reference state of the branch (the
  checkout capability, here \<open>checkout\<close>: a working tree, or its failure, which ends
  the run) and runs the operation in that working tree.
\<close>

definition doOnBranch ::
  "(string \<Rightarrow> error + tree) \<Rightarrow> string \<Rightarrow> (tree \<Rightarrow> linter_state \<Rightarrow> error option \<times> linter_state) \<Rightarrow>
   linter_state \<Rightarrow> error option \<times> linter_state"
where
  "doOnBranch checkout branch f st =
     (let st1 = st\<lparr>events := events st @ [Checkout branch]\<rparr>
      in case checkout branch of
           Inl e \<Rightarrow> (Some e, st1)
         | Inr t \<Rightarrow> f t st1)"

text \<open>
  \<open>runScript\<close> of the linter: \<open>current\<close> is the working tree of the pull request,
  \<open>targetBranch\<close> the value of \<open>utils.getTargetBranch()\<close>.
\<close>

definition runScript ::
  "(string \<Rightarrow> error + tree) \<Rightarrow> tree \<Rightarrow> string \<Rightarrow> string list \<Rightarrow> linter_state \<Rightarrow>
   error option \<times> linter_state"
where
  "runScript checkout current targetBranch configsToProcess st =
     (let (e, st1) =
        (if configsToProcess \<noteq> [] then
           (case forEach (\<lambda>configFile. runTools current configFile ''after'') configsToProcess st of
              (Some e, st1) \<Rightarrow> (Some e, st1)
            | (None, st1) \<Rightarrow>
                doOnBranch checkout targetBranch
                  (\<lambda>t. forEach (\<lambda>configFile. runTools t configFile ''before'') configsToProcess) st1)
         else (None, st))
      in case e of
           Some x \<Rightarrow> (Some x, st1)
         | None \<Rightarrow> (None, st1\<lparr>written := Some (files st1)\<rparr>))"

definition initial_linter_state :: linter_state where
  "initial_linter_state = \<lparr>files = Map.empty, events = [], written = None\<rparr>"

section \<open>The model validation pipeline (\<open>main\<close>)\<close>

record position_t =
  line :: int
  column :: int

record error_details =
  message :: "string option"
  url :: "string option"
  position :: "position_t option"
  jsonUrl :: "string option"
  jsonPosition :: "position_t option"

record model_validation_error =
  code :: "string option"
  details :: "error_details option"
  operationId :: "string option"
  scenario :: "string option"
  source :: "string option"
  responseCode :: "string option"
  severity :: "int option"

record path_entry =
  tag :: string
  path :: string

text \<open>
  \<open>format.ResultMessageRecord\<close>. \<open>extra\<close> holds \<open>operationId\<close>, \<open>scenario\<close>, \<open>source\<close>,
  \<open>responseCode\<close> and \<open>severity\<close>, in this order.
\<close>

record result_message_record =
  rtype :: string
  level :: string
  rmessage :: string
  rcode :: string
  docUrl :: string
  time :: nat
  extra :: "string option \<times> string option \<times> string option \<times> string option \<times> int option"
  paths :: "path_entry list"

text \<open>The functions of \<open>utils\<close> that render a path: they are not among the sources.\<close>

record utils_t =
  blobHref :: "string \<Rightarrow> string"
  getGithubStyleFilePath :: "string \<Rightarrow> string"
  getRelativeSwaggerPathToRepo :: "string \<Rightarrow> string"

text \<open>A string that may be \<open>undefined\<close>: \<open>s || ""\<close>, its truth value, and \<open>${s}\<close>.\<close>

definition or_empty :: "string option \<Rightarrow> string" where
  "or_empty s = (case s of None \<Rightarrow> [] | Some v \<Rightarrow> v)"

definition truthy :: "string option \<Rightarrow> bool" where
  "truthy s = (case s of None \<Rightarrow> False | Some v \<Rightarrow> v \<noteq> [])"

definition getDocUrl :: "string option \<Rightarrow> string" where
  "getDocUrl ident =
     ''https://github.com/Azure/azure-rest-api-specs/blob/master/documentation/Semantic-and-Model-Violations-Reference.md#''
     @ (case ident of None \<Rightarrow> ''undefined'' | Some v \<Rightarrow> v)"

text \<open>The path of a location: \<open>url + '#L' + String(position.line) || ""\<close>, rendered by \<open>utils\<close>.\<close>

definition location_path :: "utils_t \<Rightarrow> string \<Rightarrow> position_t \<Rightarrow> string" where
  "location_path u file pos =
     blobHref u (getGithubStyleFilePath u (getRelativeSwaggerPathToRepo u
       (or_empty (Some (file @ ''#L'' @ String_int (line pos))))))"

text \<open>
  The function mapped over the validation errors. \<open>it.details!\<close> is read unchecked:
  without \<open>details\<close> the read throws \<open>TypeError\<close>. \<open>now\<close> is \<open>new Date()\<close>.
\<close>

definition toPipelineResultData ::
  "utils_t \<Rightarrow> nat \<Rightarrow> model_validation_error \<Rightarrow> error + result_message_record"
where
  "toPipelineResultData u now it =
     (case details it of
        None \<Rightarrow> Inl TypeError
      | Some d \<Rightarrow>
          Inr \<lparr>rtype = ''Result'',
               level = ''Error'',
               rmessage = or_empty (message d),
               rcode = or_empty (code it),
               docUrl = getDocUrl (code it),
               time = now,
               extra = (operationId it, scenario it, source it, responseCode it, severity it),
               paths =
                 (if truthy (url d) \<and> position d \<noteq> None
                  then [\<lparr>tag = ''Url'', path = location_path u (the (url d)) (the (position d))\<rparr>]
                  else []) @
                 (if truthy (jsonUrl d) \<and> jsonPosition d \<noteq> None
                  then [\<lparr>tag = ''JsonUrl'',
                          path = location_path u (the (jsonUrl d)) (the (jsonPosition d))\<rparr>]
                  else [])\<rparr>)"








section \<open>The properties, as the specification words them\<close>

text \<open>
  The severities of the specification and their rank, \<open>Info < Warning < Error\<close>. A
  string that is none of the three is not a severity; the theorems below that need the
  rank assume \<open>known_severity\<close>.
\<close>

definition known_severity :: "string \<Rightarrow> bool" where
  "known_severity t \<longleftrightarrow> t = ''Info'' \<or> t = ''Warning'' \<or> t = ''Error''"

definition severity_rank :: "string \<Rightarrow> nat" where
  "severity_rank t = (if t = ''Error'' then 2 else if t = ''Warning'' then 1 else 0)"

text \<open>
  The order of the specification on findings: a lower rank first; with the same
  severity, the rule ids in the order of \<open>localeCompare\<close>.
\<close>

definition finding_le :: "(string \<Rightarrow> string \<Rightarrow> int) \<Rightarrow> Diff \<Rightarrow> Diff \<Rightarrow> bool" where
  "finding_le localeCompare a b \<longleftrightarrow>
     severity_rank (diff_type a) < severity_rank (diff_type b) \<or>
     (diff_type a = diff_type b \<and> localeCompare (diff_id a) (diff_id b) \<le> 0)"

text \<open>
  What is assumed of \<open>localeCompare\<close>: any two strings are comparable, and the
  comparison is transitive.
\<close>

definition consistent_comparator :: "(string \<Rightarrow> string \<Rightarrow> int) \<Rightarrow> bool" where
  "consistent_comparator lc \<longleftrightarrow>
     (\<forall>a b. lc a b \<le> 0 \<or> lc b a \<le> 0) \<and>
     (\<forall>a b c. lc a b \<le> 0 \<longrightarrow> lc b c \<le> 0 \<longrightarrow> lc a c \<le> 0)"


text \<open>
  A comparator to try the theorems on: the order of the code units, which is how
  \<open>localeCompare\<close> orders rule ids made of digits.
\<close>

fun codeUnitCompare :: "string \<Rightarrow> string \<Rightarrow> int" where
  "codeUnitCompare [] [] = 0"
| "codeUnitCompare [] (y # ys) = - 1"
| "codeUnitCompare (x # xs) [] = 1"
| "codeUnitCompare (x # xs) (y # ys) =
     (if (of_char x :: nat) < of_char y then - 1
      else if (of_char y :: nat) < of_char x then 1
      else codeUnitCompare xs ys)"

text \<open>
  An occurrence of a closing brace, white space and an opening brace in a text
  (a match of \<open>/}\s+{/\<close>).
\<close>

fun has_gap :: "string \<Rightarrow> bool" where
  "has_gap [] = False"
| "has_gap (c # cs) = ((c = CHR ''}'' \<and> gap_rest cs \<noteq> None) \<or> has_gap cs)"

text \<open>
  A progress-report line (a match of \<open>/Processing batch task - {.*} \.\n/\<close>) starts at
  some position of \<open>p\<close> in the text \<open>p @ t\<close>.
\<close>

fun noise_starts_in :: "string \<Rightarrow> string \<Rightarrow> bool" where
  "noise_starts_in [] t = False"
| "noise_starts_in (c # cs) t = (noise_rest (c # cs @ t) \<noteq> None \<or> noise_starts_in cs t)"

text \<open>
  The number of findings of a severity in a sequence, and in a whole report (the sum
  over its files).
\<close>

definition count_severity :: "string \<Rightarrow> Diff list \<Rightarrow> nat" where
  "count_severity t diffs = length (filter (\<lambda>d. diff_type d = t) diffs)"

definition total_severity :: "string \<Rightarrow> (string \<rightharpoonup> Diff list) \<Rightarrow> nat" where
  "total_severity t report = (\<Sum>f\<in>dom report. count_severity t (the (report f)))"

text \<open>
  The new files of a run, as the specification defines them: the paths of the pull
  request that the target branch does not have.
\<close>

definition NewFileSet :: "tree \<Rightarrow> string list \<Rightarrow> string set" where
  "NewFileSet targetTree changed = {f \<in> set changed. \<not> existsSync targetTree f}"

text \<open>
  The events of the phases: a run of the tool after, a run before (each with the
  commands it executes), and a checkout.
\<close>

definition after_event :: "event \<Rightarrow> bool" where
  "after_event e = (case e of RunTools f ph \<Rightarrow> ph = ''after'' | Exec c \<Rightarrow> True | Checkout b \<Rightarrow> False)"

definition before_event :: "event \<Rightarrow> bool" where
  "before_event e = (case e of RunTools f ph \<Rightarrow> ph = ''before'' | Exec c \<Rightarrow> True | Checkout b \<Rightarrow> False)"

definition is_checkout :: "event \<Rightarrow> bool" where
  "is_checkout e = (case e of Checkout b \<Rightarrow> True | _ \<Rightarrow> False)"

text \<open>The linter returns findings for a file in a working tree (it neither throws nor exits).\<close>

definition succeeds :: "tree \<Rightarrow> string \<Rightarrow> bool" where
  "succeeds t f = (case snd (getLinterResult t (Some f)) of Inl e \<Rightarrow> False | Inr v \<Rightarrow> True)"



text \<open>What the runs of a phase over a list of files leave in the trace.\<close>

definition run_events :: "tree \<Rightarrow> string \<Rightarrow> string list \<Rightarrow> event list" where
  "run_events t ph cs = concat (map (\<lambda>c. RunTools c ph # map Exec (fst (getLinterResult t (Some c)))) cs)"

text \<open>
  The report holds, for a file and a phase, the findings of the linter for that file
  in a working tree.
\<close>

definition recorded :: "tree \<Rightarrow> string \<Rightarrow> linter_state \<Rightarrow> string \<Rightarrow> bool" where
  "recorded t ph st f \<longleftrightarrow>
     (\<exists>fs v. files st f = Some fs \<and> fs ph = Some v \<and> snd (getLinterResult t (Some f)) = Inr v)"

text \<open>
  Inputs to try the theorems on: a reading of a parsed record at the type \<open>Diff\<close>
  (the string fields by their keys), a diff tool that reports three findings for
  \<open>a.json\<close> and nothing else, the working tree of a pull request, in which the linter
  prints one record for every file, the working tree of a target branch that has no
  file, a working tree in which the linter prints two records on one line, one in
  which it does so for every file but \<open>readme.md\<close>, one in which it prints no record,
  and a diff tool that prints one finding for \<open>a.json\<close> and half a record for any other
  file.
\<close>

definition field :: "string \<Rightarrow> json \<Rightarrow> string" where
  "field k v =
     (case v of
        JObject ms \<Rightarrow> (case map_of ms k of Some (JString s) \<Rightarrow> s | _ \<Rightarrow> [])
      | _ \<Rightarrow> [])"

definition readDiff :: "json \<Rightarrow> Diff" where
  "readDiff v =
     \<lparr>diff_type = field ''type'' v, diff_id = field ''id'' v, diff_code = field ''code'' v,
      diff_message = field ''message'' v\<rparr>"

definition oad_sample :: "string \<Rightarrow> string \<Rightarrow> error + string" where
  \<open>oad_sample oldSpec newSpec =
     (if oldSpec = ''a.json''
      then Inr ''{"type":"Error","id":"1005"} {"type":"Warning","id":"1002"} {"type":"Warning","id":"1001"}''
      else Inr [])\<close>

definition sample_resolved :: "string \<rightharpoonup> string" where
  "sample_resolved = [''a.json'' \<mapsto> ''/tmp/resolved/a.json'', ''b.json'' \<mapsto> ''/tmp/resolved/b.json'']"

definition sample_state :: run_state where
  "sample_state =
     \<lparr>errors = 1, warnings = 2,
      diffFiles =
        [''a.json'' \<mapsto>
           [\<lparr>diff_type = ''Error'', diff_id = ''1005'', diff_code = [], diff_message = []\<rparr>,
            \<lparr>diff_type = ''Warning'', diff_id = ''1002'', diff_code = [], diff_message = []\<rparr>,
            \<lparr>diff_type = ''Warning'', diff_id = ''1001'', diff_code = [], diff_message = []\<rparr>]],
      newFiles = [''c.json''], exitCode = 1\<rparr>"

definition pr_tree :: tree where
  \<open>pr_tree =
     \<lparr>existsSync = (\<lambda>_. True),
      exec = (\<lambda>_. \<lparr>err = False, stdout = ''{"code":"R2001"}'', stderr = []\<rparr>)\<rparr>\<close>

definition target_tree :: tree where
  "target_tree =
     \<lparr>existsSync = (\<lambda>_. False),
      exec = (\<lambda>_. \<lparr>err = False, stdout = [], stderr = []\<rparr>)\<rparr>"

definition malformed_tree :: tree where
  \<open>malformed_tree =
     \<lparr>existsSync = (\<lambda>_. True),
      exec = (\<lambda>_. \<lparr>err = False, stdout = ''{ "a":1 } { "a":2 }'', stderr = []\<rparr>)\<rparr>\<close>

definition sample_cmd :: string where
  "sample_cmd =
     ''npx autorest --reset && npx autorest --validation --azure-validator --message-format=json readme.md''"




definition quiet_tree :: tree where
  "quiet_tree =
     \<lparr>existsSync = (\<lambda>_. True),
      exec = (\<lambda>_. \<lparr>err = False, stdout = ''AutoRest code generation utility'', stderr = []\<rparr>)\<rparr>"

definition sample_report :: "string \<rightharpoonup> (string \<rightharpoonup> json)" where
  "sample_report =
     [''readme.md'' \<mapsto>
        [''after'' \<mapsto> JArray [JObject [(''code'', JString ''R2001'')]], ''before'' \<mapsto> JArray []]]"

definition sample_linter_state :: linter_state where
  "sample_linter_state =
     \<lparr>files = sample_report,
      events = [RunTools ''readme.md'' ''after'', Exec sample_cmd, Checkout ''master'',
                RunTools ''readme.md'' ''before''],
      written = Some sample_report\<rparr>"

text \<open>
  More inputs to try the theorems on: a validation error with a source location and a
  JSON path without a position, a validator that throws for \<open>bad.json\<close> while it
  validates and reports that error for any other file, a validator that throws for
  every file before it validates, and path functions that leave a path as it is.
\<close>

definition sample_error :: model_validation_error where
  "sample_error =
     \<lparr>code = Some ''INVALID_TYPE'',
      details = Some \<lparr>message = Some ''Expected type string'', url = Some ''spec/a.json'',
                      position = Some \<lparr>line = 12, column = 5\<rparr>,
                      jsonUrl = Some ''spec/a.resolved.json'', jsonPosition = None\<rparr>,
      operationId = Some ''Get'', scenario = None, source = None, responseCode = Some ''200'',
      severity = Some 0\<rparr>"

definition sample_record :: result_message_record where
  "sample_record =
     \<lparr>rtype = ''Result'', level = ''Error'', rmessage = ''Expected type string'',
      rcode = ''INVALID_TYPE'', docUrl = getDocUrl (Some ''INVALID_TYPE''), time = 0,
      extra = (Some ''Get'', None, None, Some ''200'', Some 0),
      paths = [\<lparr>tag = ''Url'', path = ''spec/a.json#L12''\<rparr>]\<rparr>"



definition sample_utils :: utils_t where
  "sample_utils =
     \<lparr>blobHref = (\<lambda>p. p), getGithubStyleFilePath = (\<lambda>p. p),
      getRelativeSwaggerPathToRepo = (\<lambda>p. p)\<rparr>"

section \<open>The sort of the findings\<close>

lemma set_insert_sorted: "set (insert_sorted c x ys) = insert x (set ys)"
  by (induction ys) auto

lemma mset_insert_sorted: "mset (insert_sorted c x ys) = add_mset x (mset ys)"
  by (induction ys) auto

lemma array_sort_Cons: "array_sort c (x # xs) = insert_sorted c x (array_sort c xs)"
  by (simp add: array_sort_def)

lemma array_sort_Nil: "array_sort c [] = []"
  by (simp add: array_sort_def)

lemma mset_array_sort: "mset (array_sort c xs) = mset xs"
  by (induction xs) (simp_all add: array_sort_Nil array_sort_Cons mset_insert_sorted)

lemma set_array_sort: "set (array_sort c xs) = set xs"
  using mset_array_sort [of c xs] by (metis set_mset_mset)

lemma sorted_insert_sorted:
  assumes total: "\<And>a b. P a \<Longrightarrow> P b \<Longrightarrow> c a b \<le> 0 \<or> c b a \<le> 0"
    and trans: "\<And>a b d. P a \<Longrightarrow> P b \<Longrightarrow> P d \<Longrightarrow> c a b \<le> 0 \<Longrightarrow> c b d \<le> 0 \<Longrightarrow> c a d \<le> 0"
    and "P x" and "list_all P ys" and "sorted_wrt (\<lambda>a b. c a b \<le> 0) ys"
  shows "sorted_wrt (\<lambda>a b. c a b \<le> 0) (insert_sorted c x ys)"
  using assms(4,5)
proof (induction ys)
  case Nil
  then show ?case by simp
next
  case (Cons y ys)
  from Cons.prems have Py: "P y" and Pys: "list_all P ys"
    and sy: "\<forall>z\<in>set ys. c y z \<le> 0" and sys: "sorted_wrt (\<lambda>a b. c a b \<le> 0) ys"
    by simp_all
  show ?case
  proof (cases "c x y \<le> 0")
    case True
    have "\<forall>z\<in>set ys. c x z \<le> 0"
    proof
      fix z assume z: "z \<in> set ys"
      with Pys have "P z" by (simp add: list_all_iff)
      with trans [OF \<open>P x\<close> Py this True] sy z show "c x z \<le> 0" by blast
    qed
    with True Cons.prems show ?thesis by simp
  next
    case False
    with total [OF \<open>P x\<close> Py] have "c y x \<le> 0" by blast
    with False sy Cons.IH [OF Pys sys] show ?thesis
      by (simp add: set_insert_sorted)
  qed
qed

lemma sorted_array_sort:
  assumes total: "\<And>a b. P a \<Longrightarrow> P b \<Longrightarrow> c a b \<le> 0 \<or> c b a \<le> 0"
    and trans: "\<And>a b d. P a \<Longrightarrow> P b \<Longrightarrow> P d \<Longrightarrow> c a b \<le> 0 \<Longrightarrow> c b d \<le> 0 \<Longrightarrow> c a d \<le> 0"
    and "list_all P xs"
  shows "sorted_wrt (\<lambda>a b. c a b \<le> 0) (array_sort c xs)"
  using assms(3)
proof (induction xs)
  case Nil
  then show ?case by (simp add: array_sort_Nil)
next
  case (Cons x xs)
  then have "P x" and "list_all P xs" by simp_all
  moreover have "list_all P (array_sort c xs)"
    using \<open>list_all P xs\<close> by (simp add: list_all_iff set_array_sort)
  ultimately show ?case
    using Cons.IH sorted_insert_sorted [of P c x "array_sort c xs", OF total trans]
    by (simp add: array_sort_Cons)
qed




lemma diff_comparator_le:
  fixes a b :: Diff
  assumes "known_severity (diff_type a)" and "known_severity (diff_type b)"
  shows "diff_comparator lc a b \<le> 0 \<longleftrightarrow> finding_le lc a b"
proof (cases "diff_type a = diff_type b")
  case True
  then show ?thesis by (simp add: diff_comparator_def finding_le_def)
next
  case False
  with assms show ?thesis
    unfolding diff_comparator_def finding_le_def known_severity_def severity_rank_def
    by auto
qed

lemma finding_le_total:
  fixes a b :: Diff
  assumes "consistent_comparator lc"
    and "known_severity (diff_type a)" and "known_severity (diff_type b)"
  shows "finding_le lc a b \<or> finding_le lc b a"
proof (cases "diff_type a = diff_type b")
  case True
  from assms(1) have "lc (diff_id a) (diff_id b) \<le> 0 \<or> lc (diff_id b) (diff_id a) \<le> 0"
    unfolding consistent_comparator_def by blast
  with True show ?thesis by (auto simp: finding_le_def)
next
  case False
  with assms(2,3) show ?thesis
    unfolding finding_le_def known_severity_def severity_rank_def by auto
qed

lemma finding_le_trans:
  fixes a b d :: Diff
  assumes "consistent_comparator lc" and "finding_le lc a b" and "finding_le lc b d"
  shows "finding_le lc a d"
proof -
  from assms(1) have tr: "\<And>x y z. lc x y \<le> 0 \<Longrightarrow> lc y z \<le> 0 \<Longrightarrow> lc x z \<le> 0"
    unfolding consistent_comparator_def by blast
  let ?r = "\<lambda>x::Diff. severity_rank (diff_type x)"
  from assms(2) consider (lt) "?r a < ?r b"
    | (eq) "diff_type a = diff_type b" "lc (diff_id a) (diff_id b) \<le> 0"
    unfolding finding_le_def by blast
  then show ?thesis
  proof cases
    case lt
    from assms(3) have "?r b \<le> ?r d" unfolding finding_le_def by auto
    with lt show ?thesis unfolding finding_le_def by simp
  next
    case eq
    from assms(3) consider (lt2) "?r b < ?r d"
      | (eq2) "diff_type b = diff_type d" "lc (diff_id b) (diff_id d) \<le> 0"
      unfolding finding_le_def by blast
    then show ?thesis
    proof cases
      case lt2
      with eq(1) show ?thesis unfolding finding_le_def by simp
    next
      case eq2
      from tr [OF eq(2) eq2(2)] eq(1) eq2(1) show ?thesis unfolding finding_le_def by simp
    qed
  qed
qed

lemma codeUnitCompare_total: "codeUnitCompare a b \<le> 0 \<or> codeUnitCompare b a \<le> 0"
  by (induction a b rule: codeUnitCompare.induct) auto

lemma codeUnitCompare_Cons_le:
  "codeUnitCompare (x # xs) (y # ys) \<le> 0 \<longleftrightarrow>
   (of_char x :: nat) < of_char y \<or> ((of_char x :: nat) = of_char y \<and> codeUnitCompare xs ys \<le> 0)"
  by auto

lemma codeUnitCompare_trans:
  "codeUnitCompare a b \<le> 0 \<Longrightarrow> codeUnitCompare b c \<le> 0 \<Longrightarrow> codeUnitCompare a c \<le> 0"
proof (induction a b arbitrary: c rule: codeUnitCompare.induct)
  case 1
  then show ?case by simp
next
  case (2 y ys)
  then show ?case by (cases c) simp_all
next
  case (3 x xs)
  then show ?case by simp
next
  case (4 x xs y ys)
  show ?case
  proof (cases c)
    case Nil
    with "4.prems" show ?thesis by simp
  next
    case (Cons z zs)
    let ?x = "of_char x :: nat" and ?y = "of_char y :: nat" and ?z = "of_char z :: nat"
    from "4.prems"(1) have xy: "?x < ?y \<or> (?x = ?y \<and> codeUnitCompare xs ys \<le> 0)"
      by (simp only: codeUnitCompare_Cons_le)
    from "4.prems"(2) Cons have yz: "?y < ?z \<or> (?y = ?z \<and> codeUnitCompare ys zs \<le> 0)"
      by (simp only: codeUnitCompare_Cons_le)
    show ?thesis
    proof (cases "?x = ?y \<and> ?y = ?z")
      case True
      with xy yz have "codeUnitCompare xs ys \<le> 0" and "codeUnitCompare ys zs \<le> 0" by simp_all
      with True "4.IH" [of zs] have "codeUnitCompare xs zs \<le> 0" by simp
      with True Cons show ?thesis by (simp only: codeUnitCompare_Cons_le) simp
    next
      case False
      with xy yz have "?x < ?z" by auto
      with Cons show ?thesis by (simp only: codeUnitCompare_Cons_le) simp
    qed
  qed
qed

lemma codeUnitCompare_consistent: "consistent_comparator codeUnitCompare"
  unfolding consistent_comparator_def
  using codeUnitCompare_total codeUnitCompare_trans by blast

lemma sort_diffs_comparator_sorted:
  assumes "consistent_comparator lc" and "list_all (\<lambda>d. known_severity (diff_type d)) diffs"
  shows "sorted_wrt (\<lambda>a b. diff_comparator lc a b \<le> 0) (sort_diffs lc diffs)"
  unfolding sort_diffs_def
proof (rule sorted_array_sort [of "\<lambda>d::Diff. known_severity (diff_type d)"])
  fix a b :: Diff
  assume "known_severity (diff_type a)" "known_severity (diff_type b)"
  then show "diff_comparator lc a b \<le> 0 \<or> diff_comparator lc b a \<le> 0"
    using finding_le_total [OF assms(1), of a b] by (simp add: diff_comparator_le)
next
  fix a b d :: Diff
  assume "known_severity (diff_type a)" "known_severity (diff_type b)"
    "known_severity (diff_type d)" "diff_comparator lc a b \<le> 0" "diff_comparator lc b d \<le> 0"
  then show "diff_comparator lc a d \<le> 0"
    using finding_le_trans [OF assms(1), of a b d] by (simp add: diff_comparator_le)
next
  show "list_all (\<lambda>d. known_severity (diff_type d)) diffs" by (rule assms(2))
qed

text \<open>
  C1. For every list of findings of one file, the sort orders the findings ascending by
  severity rank, \<open>Info < Warning < Error\<close> (the most severe last), and compares two
  findings by rule id only when their severities are equal: the sorted list is ordered
  by \<open>finding_le\<close>, and it holds the same findings as the list that was sorted. The order
  of the rule ids is that of \<open>localeCompare\<close>.
\<close>

theorem C1_sort_by_severity_then_rule:
  assumes "consistent_comparator localeCompare"
    and "list_all (\<lambda>d. known_severity (diff_type d)) diffs"
  shows "sorted_wrt (finding_le localeCompare) (sort_diffs localeCompare diffs) \<and>
         mset (sort_diffs localeCompare diffs) = mset diffs"
proof
  let ?c = "diff_comparator localeCompare"
  have "\<And>a b. a \<in> set (sort_diffs localeCompare diffs) \<Longrightarrow>
      b \<in> set (sort_diffs localeCompare diffs) \<Longrightarrow> ?c a b \<le> 0 \<Longrightarrow> finding_le localeCompare a b"
    using assms(2) by (simp add: sort_diffs_def set_array_sort list_all_iff diff_comparator_le)
  with sort_diffs_comparator_sorted [OF assms]
  show "sorted_wrt (finding_le localeCompare) (sort_diffs localeCompare diffs)"
    by (rule sorted_wrt_mono_rel [rotated])
next
  show "mset (sort_diffs localeCompare diffs) = mset diffs"
    by (simp add: sort_diffs_def mset_array_sort)
qed

theorem C1_sort_by_severity_then_rule_witness:
  "sorted_wrt (finding_le codeUnitCompare)
     (sort_diffs codeUnitCompare
        [\<lparr>diff_type = ''Error'', diff_id = ''1001'', diff_code = ''c'', diff_message = ''m''\<rparr>,
         \<lparr>diff_type = ''Info'', diff_id = ''1003'', diff_code = ''c'', diff_message = ''m''\<rparr>,
         \<lparr>diff_type = ''Warning'', diff_id = ''1002'', diff_code = ''c'', diff_message = ''m''\<rparr>,
         \<lparr>diff_type = ''Info'', diff_id = ''1000'', diff_code = ''c'', diff_message = ''m''\<rparr>]) \<and>
   sort_diffs codeUnitCompare
        [\<lparr>diff_type = ''Error'', diff_id = ''1001'', diff_code = ''c'', diff_message = ''m''\<rparr>,
         \<lparr>diff_type = ''Info'', diff_id = ''1003'', diff_code = ''c'', diff_message = ''m''\<rparr>,
         \<lparr>diff_type = ''Warning'', diff_id = ''1002'', diff_code = ''c'', diff_message = ''m''\<rparr>,
         \<lparr>diff_type = ''Info'', diff_id = ''1000'', diff_code = ''c'', diff_message = ''m''\<rparr>] =
        [\<lparr>diff_type = ''Info'', diff_id = ''1000'', diff_code = ''c'', diff_message = ''m''\<rparr>,
         \<lparr>diff_type = ''Info'', diff_id = ''1003'', diff_code = ''c'', diff_message = ''m''\<rparr>,
         \<lparr>diff_type = ''Warning'', diff_id = ''1002'', diff_code = ''c'', diff_message = ''m''\<rparr>,
         \<lparr>diff_type = ''Error'', diff_id = ''1001'', diff_code = ''c'', diff_message = ''m''\<rparr>]"
proof
  let ?diffs =
    "[\<lparr>diff_type = ''Error'', diff_id = ''1001'', diff_code = ''c'', diff_message = ''m''\<rparr>,
      \<lparr>diff_type = ''Info'', diff_id = ''1003'', diff_code = ''c'', diff_message = ''m''\<rparr>,
      \<lparr>diff_type = ''Warning'', diff_id = ''1002'', diff_code = ''c'', diff_message = ''m''\<rparr>,
      \<lparr>diff_type = ''Info'', diff_id = ''1000'', diff_code = ''c'', diff_message = ''m''\<rparr>]"
  have "list_all (\<lambda>d. known_severity (diff_type d)) ?diffs"
    by (simp add: known_severity_def)
  from C1_sort_by_severity_then_rule [OF codeUnitCompare_consistent this]
  show "sorted_wrt (finding_le codeUnitCompare) (sort_diffs codeUnitCompare ?diffs)" by (rule conjunct1)
next
  show "sort_diffs codeUnitCompare
        [\<lparr>diff_type = ''Error'', diff_id = ''1001'', diff_code = ''c'', diff_message = ''m''\<rparr>,
         \<lparr>diff_type = ''Info'', diff_id = ''1003'', diff_code = ''c'', diff_message = ''m''\<rparr>,
         \<lparr>diff_type = ''Warning'', diff_id = ''1002'', diff_code = ''c'', diff_message = ''m''\<rparr>,
         \<lparr>diff_type = ''Info'', diff_id = ''1000'', diff_code = ''c'', diff_message = ''m''\<rparr>] =
        [\<lparr>diff_type = ''Info'', diff_id = ''1000'', diff_code = ''c'', diff_message = ''m''\<rparr>,
         \<lparr>diff_type = ''Info'', diff_id = ''1003'', diff_code = ''c'', diff_message = ''m''\<rparr>,
         \<lparr>diff_type = ''Warning'', diff_id = ''1002'', diff_code = ''c'', diff_message = ''m''\<rparr>,
         \<lparr>diff_type = ''Error'', diff_id = ''1001'', diff_code = ''c'', diff_message = ''m''\<rparr>]"
    by (simp add: sort_diffs_def array_sort_def diff_comparator_def)
qed

text \<open>
  With findings of the known severities and a consistent \<open>localeCompare\<close>, the comparator
  of \<open>runScript\<close> is consistent for the findings, and \<open>diffs.sort\<close> returns the stable order.
\<close>

lemma consistent_on_set: "set xs = set ys \<Longrightarrow> consistent_on c xs = consistent_on c ys"
  by (simp add: consistent_on_def list_all_iff)


lemma severity_rank_eq:
  "known_severity s \<Longrightarrow> known_severity t \<Longrightarrow> severity_rank s = severity_rank t \<longleftrightarrow> s = t"
  unfolding known_severity_def severity_rank_def by auto










section \<open>The repair of the tools' output\<close>

lemma takeWhile_space_fixup: "takeWhile is_space (oad_fixup cs) = takeWhile is_space cs"
  by (induction cs rule: oad_fixup.induct) (auto simp: is_space_def split: option.splits)

lemma dropWhile_space_fixup:
  "(case dropWhile is_space (oad_fixup cs) of [] \<Rightarrow> None | d # _ \<Rightarrow> Some d) =
   (case dropWhile is_space cs of [] \<Rightarrow> None | d # _ \<Rightarrow> Some d)"
  by (induction cs rule: oad_fixup.induct) (auto simp: is_space_def split: option.splits)

lemma gap_rest_None_iff:
  "gap_rest cs = None \<longleftrightarrow>
   \<not> ((case dropWhile is_space cs of [] \<Rightarrow> None | d # _ \<Rightarrow> Some d) = Some CHR ''{'' \<and>
      takeWhile is_space cs \<noteq> [])"
proof (cases "dropWhile is_space cs")
  case Nil
  then show ?thesis by (simp add: gap_rest_def del: dropWhile_eq_Nil_conv)
next
  case (Cons d r)
  then show ?thesis by (simp add: gap_rest_def)
qed

lemma gap_rest_fixup: "gap_rest cs = None \<Longrightarrow> gap_rest (oad_fixup cs) = None"
  by (simp add: gap_rest_None_iff dropWhile_space_fixup takeWhile_space_fixup)

lemma gap_rest_comma: "gap_rest (CHR '','' # cs) = None"
  by (simp add: gap_rest_def is_space_def)

lemma no_gap_fixup: "\<not> has_gap (oad_fixup s)"
  by (induction s rule: oad_fixup.induct)
     (auto simp: gap_rest_comma gap_rest_fixup split: option.splits)

lemma noise_rest_line:
  assumes "list_all (\<lambda>c. \<not> is_line_terminator c) l"
  shows "noise_rest (noise_prefix @ l @ ''} .'' @ [CHR 0x0A] @ rest) = Some rest"
proof -
  let ?P = "\<lambda>c. \<not> is_line_terminator c"
  define t where "t = l @ ''} .'' @ [CHR 0x0A] @ rest"
  from assms have l: "\<forall>c\<in>set l. ?P c" by (simp add: list_all_iff)
  have tw: "takeWhile ?P t = l @ ''} .''"
    using l by (simp add: t_def takeWhile_append2 is_line_terminator_def)
  have dw: "dropWhile ?P t = CHR 0x0A # rest"
    using l by (simp add: t_def dropWhile_append2 is_line_terminator_def)
  have "noise_rest (noise_prefix @ t) = Some rest"
    by (simp add: noise_rest_def Let_def tw dw)
  then show ?thesis by (simp add: t_def)
qed

lemma strip_noise_line:
  assumes "list_all (\<lambda>c. \<not> is_line_terminator c) l"
  shows "strip_noise (noise_prefix @ l @ ''} .'' @ [CHR 0x0A] @ rest) = strip_noise rest"
proof -
  obtain c cs where s: "noise_prefix @ l @ ''} .'' @ [CHR 0x0A] @ rest = c # cs"
    by (cases "noise_prefix @ l @ ''} .'' @ [CHR 0x0A] @ rest") (simp_all add: noise_prefix_def)
  have "noise_rest (c # cs) = Some rest"
    using noise_rest_line [OF assms, of rest] s by simp
  then have "strip_noise (c # cs) = strip_noise rest" by simp
  then show ?thesis using s by simp
qed

text \<open>
  Each step of the two repairs, for every text: where it leaves the text as it is, and
  what it does at the leftmost place where it changes it.
\<close>

lemma gap_rest_ws:
  assumes "ws \<noteq> []" and "list_all is_space ws"
  shows "gap_rest (ws @ CHR ''{'' # y) = Some y"
proof -
  from assms(2) have a: "\<And>x. x \<in> set ws \<Longrightarrow> is_space x" by (simp add: list_all_iff)
  have b: "\<not> is_space CHR ''{''" by (simp add: is_space_def)
  have d: "dropWhile is_space (ws @ CHR ''{'' # y) = CHR ''{'' # y"
    using a b by (simp add: dropWhile_append2)
  have t: "takeWhile is_space (ws @ CHR ''{'' # y) = ws"
    using a b by (simp add: takeWhile_append2)
  show ?thesis using assms(1) by (simp add: gap_rest_def d t)
qed

lemma gap_rest_Some:
  assumes "gap_rest cs = Some r"
  shows "\<exists>ws. ws \<noteq> [] \<and> list_all is_space ws \<and> cs = ws @ CHR ''{'' # r"
proof -
  from assms have d: "dropWhile is_space cs = CHR ''{'' # r" and t: "takeWhile is_space cs \<noteq> []"
    by (auto simp: gap_rest_def split: list.splits if_splits)
  have "cs = takeWhile is_space cs @ dropWhile is_space cs" by simp
  with d have "cs = takeWhile is_space cs @ CHR ''{'' # r" by simp
  moreover have "list_all is_space (takeWhile is_space cs)"
    by (auto simp: list_all_iff dest: set_takeWhileD)
  ultimately show ?thesis using t by blast
qed

lemma has_gap_append: "has_gap s \<Longrightarrow> has_gap (x @ s)"
  by (induction x) simp_all

lemma has_gap_iff:
  "has_gap s \<longleftrightarrow>
   (\<exists>x ws y. ws \<noteq> [] \<and> list_all is_space ws \<and> s = x @ CHR ''}'' # ws @ CHR ''{'' # y)"
proof
  assume "has_gap s"
  then show "\<exists>x ws y. ws \<noteq> [] \<and> list_all is_space ws \<and> s = x @ CHR ''}'' # ws @ CHR ''{'' # y"
  proof (induction s)
    case Nil
    then show ?case by simp
  next
    case (Cons c cs)
    show ?case
    proof (cases "c = CHR ''}'' \<and> gap_rest cs \<noteq> None")
      case True
      then obtain r where "gap_rest cs = Some r" by auto
      from gap_rest_Some [OF this] obtain ws where
        "ws \<noteq> []" "list_all is_space ws" "cs = ws @ CHR ''{'' # r" by blast
      with True have "ws \<noteq> [] \<and> list_all is_space ws \<and> c # cs = [] @ CHR ''}'' # ws @ CHR ''{'' # r"
        by simp
      then show ?thesis by blast
    next
      case False
      with Cons.prems have "has_gap cs" by auto
      from Cons.IH [OF this] obtain x ws y where
        "ws \<noteq> []" "list_all is_space ws" "cs = x @ CHR ''}'' # ws @ CHR ''{'' # y" by blast
      then have "ws \<noteq> [] \<and> list_all is_space ws \<and> c # cs = (c # x) @ CHR ''}'' # ws @ CHR ''{'' # y"
        by simp
      then show ?thesis by blast
    qed
  qed
next
  assume "\<exists>x ws y. ws \<noteq> [] \<and> list_all is_space ws \<and> s = x @ CHR ''}'' # ws @ CHR ''{'' # y"
  then obtain x ws y where h: "ws \<noteq> []" "list_all is_space ws"
    and s: "s = x @ CHR ''}'' # ws @ CHR ''{'' # y" by blast
  have "has_gap (CHR ''}'' # ws @ CHR ''{'' # y)"
    by (simp add: gap_rest_ws [OF h])
  then show "has_gap s" unfolding s by (rule has_gap_append)
qed

lemma oad_fixup_no_gap: "\<not> has_gap s \<Longrightarrow> oad_fixup s = s"
  by (induction s) (auto split: option.splits)

lemma gap_rest_None_append:
  assumes "gap_rest p = None"
  shows "gap_rest (p @ CHR ''}'' # t) = None"
proof (cases "\<forall>x\<in>set p. is_space x")
  case True
  then have "dropWhile is_space (p @ CHR ''}'' # t) = CHR ''}'' # t"
    by (simp add: dropWhile_append2 is_space_def)
  then show ?thesis by (simp add: gap_rest_def)
next
  case False
  then obtain x where x: "x \<in> set p" "\<not> is_space x" by blast
  then have d: "dropWhile is_space (p @ CHR ''}'' # t) = dropWhile is_space p @ CHR ''}'' # t"
    by (rule dropWhile_append1)
  from x have t: "takeWhile is_space (p @ CHR ''}'' # t) = takeWhile is_space p"
    by (rule takeWhile_append1)
  from x have "dropWhile is_space p \<noteq> []" by auto
  then obtain e r where e: "dropWhile is_space p = e # r" by (cases "dropWhile is_space p") auto
  with assms show ?thesis by (simp add: gap_rest_def d t split: if_splits)
qed

lemma oad_fixup_leftmost:
  assumes "\<not> has_gap p" and "ws \<noteq> []" and "list_all is_space ws"
  shows "oad_fixup (p @ CHR ''}'' # ws @ CHR ''{'' # rest) = p @ ''},{'' @ oad_fixup rest"
  using assms(1)
proof (induction p)
  case Nil
  show ?case by (simp add: gap_rest_ws [OF assms(2,3)])
next
  case (Cons c p)
  then have ih: "oad_fixup (p @ CHR ''}'' # ws @ CHR ''{'' # rest) = p @ ''},{'' @ oad_fixup rest"
    by simp
  show ?case
  proof (cases "c = CHR ''}''")
    case True
    with Cons.prems have "gap_rest p = None" by simp
    then have "gap_rest (p @ CHR ''}'' # ws @ CHR ''{'' # rest) = None"
      by (rule gap_rest_None_append)
    with True ih show ?thesis by simp
  next
    case False
    with ih show ?thesis by simp
  qed
qed

lemma noise_rest_Some:
  assumes "noise_rest t = Some rest"
  shows "\<exists>l. list_all (\<lambda>c. \<not> is_line_terminator c) l \<and>
             t = noise_prefix @ l @ ''} .'' @ [CHR 0x0A] @ rest"
proof -
  let ?P = "\<lambda>c. \<not> is_line_terminator c"
  define u where "u = drop (length noise_prefix) t"
  define L where "L = takeWhile ?P u"
  from assms have p: "take (length noise_prefix) t = noise_prefix"
    by (simp add: noise_rest_def split: if_splits)
  from assms p have d: "dropWhile ?P u = CHR 0x0A # rest" and n: "3 \<le> length L"
    and e: "drop (length L - 3) L = ''} .''"
    by (auto simp: noise_rest_def Let_def u_def L_def split: list.splits if_splits)
  have "t = take (length noise_prefix) t @ u" by (simp add: u_def)
  with p have t: "t = noise_prefix @ u" by simp
  have "u = L @ dropWhile ?P u" by (simp add: L_def)
  with d have u: "u = L @ CHR 0x0A # rest" by simp
  have "L = take (length L - 3) L @ drop (length L - 3) L" by simp
  with e have L: "L = take (length L - 3) L @ ''} .''" by simp
  have "list_all ?P L" by (auto simp: L_def list_all_iff dest: set_takeWhileD)
  then have "list_all ?P (take (length L - 3) L)"
    by (auto simp: list_all_iff dest: in_set_takeD)
  moreover have "t = noise_prefix @ take (length L - 3) L @ ''} .'' @ [CHR 0x0A] @ rest"
    using t u L by (metis append.assoc append_Cons append_Nil)
  ultimately show ?thesis by blast
qed

lemma noise_rest_iff:
  "noise_rest t = Some rest \<longleftrightarrow>
   (\<exists>l. list_all (\<lambda>c. \<not> is_line_terminator c) l \<and>
        t = noise_prefix @ l @ ''} .'' @ [CHR 0x0A] @ rest)"
  using noise_rest_Some [of t rest] noise_rest_line [of _ rest] by blast

lemma noise_rest_Nil: "noise_rest [] = None"
  by (simp add: noise_rest_def noise_prefix_def)

lemma strip_noise_leftmost:
  assumes "\<not> noise_starts_in p t" and "noise_rest t = Some rest"
  shows "strip_noise (p @ t) = p @ strip_noise rest"
  using assms(1)
proof (induction p)
  case Nil
  from assms(2) obtain c cs where t: "t = c # cs"
    by (cases t) (simp_all add: noise_rest_Nil)
  with assms(2) show ?case by simp
next
  case (Cons c p)
  then show ?case by simp
qed

lemma strip_noise_none: "\<not> noise_starts_in s [] \<Longrightarrow> strip_noise s = s"
  by (induction s) simp_all

lemma from_first_brace_leftmost:
  assumes "CHR ''{'' \<notin> set p"
  shows "from_first_brace (p @ CHR ''{'' # rest) = CHR ''{'' # rest"
proof -
  have "dropWhile (\<lambda>c. c \<noteq> CHR ''{'') (p @ CHR ''{'' # rest) =
        dropWhile (\<lambda>c. c \<noteq> CHR ''{'') (CHR ''{'' # rest)"
    by (rule dropWhile_append2) (use assms in auto)
  then show ?thesis by (simp add: from_first_brace_def)
qed

lemma trim_middle:
  assumes "list_all is_space a" and "list_all is_space b"
    and "m = [] \<or> (\<not> is_space (hd m) \<and> \<not> is_space (last m))"
  shows "trim (a @ m @ b) = m"
proof (cases "m = []")
  case True
  with assms(1,2) have "dropWhile is_space (a @ m @ b) = []"
    by (simp add: list_all_iff)
  with True show ?thesis by (simp add: trim_def del: dropWhile_eq_Nil_conv)
next
  case False
  with assms(3) have h: "\<not> is_space (hd m)" and l: "\<not> is_space (last m)" by simp_all
  have "dropWhile is_space (a @ m @ b) = dropWhile is_space (m @ b)"
    by (rule dropWhile_append2) (use assms(1) in \<open>simp add: list_all_iff\<close>)
  also from False h have "\<dots> = m @ b" by (cases m) simp_all
  finally have d: "dropWhile is_space (a @ m @ b) = m @ b" .
  have "dropWhile is_space (rev b @ rev m) = dropWhile is_space (rev m)"
    by (rule dropWhile_append2) (use assms(2) in \<open>simp add: list_all_iff\<close>)
  also from False l have "\<dots> = rev m" by (cases "rev m") (simp_all add: last_rev [symmetric] hd_rev)
  finally show ?thesis by (simp add: trim_def d)
qed

lemma join_lines_Cons:
  "join_lines (c # cs) =
     (if take 3 (c # cs) = [CHR ''}'', CHR 0x0A, CHR ''{'']
      then ''},'' @ [CHR 0x0A] @ ''{'' @ join_lines (drop 3 (c # cs))
      else c # join_lines cs)"
proof (cases cs)
  case Nil
  then show ?thesis by simp
next
  case (Cons d ds)
  then show ?thesis by (cases ds) (auto simp: numeral_3_eq_3)
qed

lemma join_lines_none:
  "\<not> contains [CHR ''}'', CHR 0x0A, CHR ''{''] s \<Longrightarrow> join_lines s = s"
proof (induction s)
  case Nil
  then show ?case by simp
next
  case (Cons c cs)
  then have "take 3 (c # cs) \<noteq> [CHR ''}'', CHR 0x0A, CHR ''{'']" and "join_lines cs = cs"
    by (simp_all add: numeral_3_eq_3)
  then show ?case by (simp only: join_lines_Cons if_False)
qed

lemma take3_context:
  assumes "take 3 (c # p) \<noteq> [CHR ''}'', CHR 0x0A, CHR ''{'']"
  shows "take 3 (c # p @ [CHR ''}'', CHR 0x0A, CHR ''{''] @ rest) \<noteq> [CHR ''}'', CHR 0x0A, CHR ''{'']"
proof (cases p)
  case Nil
  then show ?thesis by (simp add: numeral_3_eq_3)
next
  case (Cons d ds)
  with assms show ?thesis by (cases ds) (simp_all add: numeral_3_eq_3)
qed

lemma join_lines_leftmost:
  assumes "\<not> contains [CHR ''}'', CHR 0x0A, CHR ''{''] p"
  shows "join_lines (p @ [CHR ''}'', CHR 0x0A, CHR ''{''] @ rest) =
           p @ ''},'' @ [CHR 0x0A] @ ''{'' @ join_lines rest"
  using assms
proof (induction p)
  case Nil
  show ?case by simp
next
  case (Cons c p)
  then have n: "take 3 (c # p) \<noteq> [CHR ''}'', CHR 0x0A, CHR ''{'']"
    and ih: "join_lines (p @ [CHR ''}'', CHR 0x0A, CHR ''{''] @ rest) =
           p @ ''},'' @ [CHR 0x0A] @ ''{'' @ join_lines rest"
    by (simp_all add: numeral_3_eq_3)
  from take3_context [OF n, of rest]
  have "join_lines (c # p @ [CHR ''}'', CHR 0x0A, CHR ''{''] @ rest) =
        c # join_lines (p @ [CHR ''}'', CHR 0x0A, CHR ''{''] @ rest)"
    by (simp only: join_lines_Cons if_False)
  with ih show ?case by simp
qed

lemma gap_rest_append: "gap_rest x = Some r \<Longrightarrow> gap_rest (x @ t) = Some (r @ t)"
proof -
  assume "gap_rest x = Some r"
  from gap_rest_Some [OF this] obtain ws where
    ws: "ws \<noteq> []" "list_all is_space ws" and x: "x = ws @ CHR ''{'' # r" by blast
  from gap_rest_ws [OF ws, of "r @ t"] x show ?thesis by simp
qed

lemma has_gap_leftmost:
  "has_gap s \<Longrightarrow>
   \<exists>x ws y. \<not> has_gap x \<and> ws \<noteq> [] \<and> list_all is_space ws \<and> s = x @ CHR ''}'' # ws @ CHR ''{'' # y"
proof (induction s)
  case Nil
  then show ?case by simp
next
  case (Cons c cs)
  show ?case
  proof (cases "c = CHR ''}'' \<and> gap_rest cs \<noteq> None")
    case True
    then obtain r where "gap_rest cs = Some r" by auto
    from gap_rest_Some [OF this] obtain ws where
      "ws \<noteq> []" "list_all is_space ws" "cs = ws @ CHR ''{'' # r" by blast
    with True have "\<not> has_gap [] \<and> ws \<noteq> [] \<and> list_all is_space ws \<and>
        c # cs = [] @ CHR ''}'' # ws @ CHR ''{'' # r"
      by simp
    then show ?thesis by blast
  next
    case False
    with Cons.prems have "has_gap cs" by auto
    from Cons.IH [OF this] obtain x ws y where x: "\<not> has_gap x"
      and ws: "ws \<noteq> []" "list_all is_space ws" and cs: "cs = x @ CHR ''}'' # ws @ CHR ''{'' # y"
      by blast
    have "\<not> (c = CHR ''}'' \<and> gap_rest x \<noteq> None)"
    proof
      assume h: "c = CHR ''}'' \<and> gap_rest x \<noteq> None"
      then obtain r where "gap_rest x = Some r" by auto
      from gap_rest_append [OF this, of "CHR ''}'' # ws @ CHR ''{'' # y"] cs
      have "gap_rest cs \<noteq> None" by simp
      with h False show False by simp
    qed
    with x have "\<not> has_gap (c # x)" by simp
    with ws cs have "\<not> has_gap (c # x) \<and> ws \<noteq> [] \<and> list_all is_space ws \<and>
        c # cs = (c # x) @ CHR ''}'' # ws @ CHR ''{'' # y"
      by simp
    then show ?thesis by blast
  qed
qed

lemma noise_leftmost:
  "noise_starts_in s [] \<Longrightarrow>
   \<exists>p t r. s = p @ t \<and> \<not> noise_starts_in p t \<and> noise_rest t = Some r"
proof (induction s)
  case Nil
  then show ?case by simp
next
  case (Cons c cs)
  show ?case
  proof (cases "noise_rest (c # cs)")
    case (Some r)
    then have "c # cs = [] @ c # cs \<and> \<not> noise_starts_in [] (c # cs) \<and> noise_rest (c # cs) = Some r"
      by simp
    then show ?thesis by blast
  next
    case None
    with Cons.prems have "noise_starts_in cs []" by simp
    from Cons.IH [OF this] obtain p t r where
      cs: "cs = p @ t" and p: "\<not> noise_starts_in p t" and t: "noise_rest t = Some r" by blast
    from None cs p have "\<not> noise_starts_in (c # p) t" by simp
    with cs t have "c # cs = (c # p) @ t \<and> \<not> noise_starts_in (c # p) t \<and> noise_rest t = Some r"
      by simp
    then show ?thesis by blast
  qed
qed

lemma contains_Cons3:
  "contains [CHR ''}'', CHR 0x0A, CHR ''{''] (c # cs) \<longleftrightarrow>
   take 3 (c # cs) = [CHR ''}'', CHR 0x0A, CHR ''{''] \<or> contains [CHR ''}'', CHR 0x0A, CHR ''{''] cs"
proof -
  have "length [CHR ''}'', CHR 0x0A, CHR ''{''] = 3" by simp
  then show ?thesis by (simp only: contains.simps)
qed

lemma contains_leftmost:
  "contains [CHR ''}'', CHR 0x0A, CHR ''{''] s \<Longrightarrow>
   \<exists>p rest. \<not> contains [CHR ''}'', CHR 0x0A, CHR ''{''] p \<and> s = p @ [CHR ''}'', CHR 0x0A, CHR ''{''] @ rest"
proof (induction s)
  case Nil
  then show ?case by simp
next
  case (Cons c cs)
  let ?P = "[CHR ''}'', CHR 0x0A, CHR ''{'']"
  show ?case
  proof (cases "take 3 (c # cs) = ?P")
    case True
    have "c # cs = take 3 (c # cs) @ drop 3 (c # cs)" by (simp only: append_take_drop_id)
    with True have "c # cs = [] @ ?P @ drop 3 (c # cs)" by (simp only: append_Nil)
    moreover have "\<not> contains ?P []" by simp
    ultimately show ?thesis by blast
  next
    case False
    with Cons.prems have "contains ?P cs" by (simp only: contains_Cons3) blast
    from Cons.IH [OF this] obtain p rest where
      p: "\<not> contains ?P p" and cs: "cs = p @ ?P @ rest" by blast
    have "take 3 (c # p) \<noteq> ?P"
    proof
      assume h: "take 3 (c # p) = ?P"
      then have "length (take 3 (c # p)) = 3" by simp
      then have "3 \<le> length (c # p)" by simp
      then have "take 3 ((c # p) @ ?P @ rest) = take 3 (c # p)" by simp
      with h False cs show False by simp
    qed
    with p have "\<not> contains ?P (c # p)" by (simp only: contains_Cons3) blast
    moreover from cs have "c # cs = (c # p) @ ?P @ rest" by simp
    ultimately show ?thesis by blast
  qed
qed

text \<open>
  C2, as the claim states it, fails on the linter's repair: the text
  \<open>{ "a":1 } { "a":2 }\<close> holds an opening brace, and \<open>getLinterResult\<close> does not parse it
  to two records; it ends the process with status 1, since it puts a comma only between
  a closing brace, one line feed and an opening brace.
\<close>

theorem C2_linter_repair_counterexample:
  \<open>CHR ''{'' \<in> set ''{ "a":1 } { "a":2 }'' \<and>
   repairLinterOutput ''{ "a":1 } { "a":2 }'' = Inl (ProcessExit 1) \<and>
   snd (getLinterResult
          \<lparr>existsSync = (\<lambda>_. True),
           exec = (\<lambda>_. \<lparr>err = False, stdout = ''{ "a":1 } { "a":2 }'', stderr = []\<rparr>)\<rparr>
          (Some ''readme.md'')) = Inl (ProcessExit 1)\<close>
  by code_simp

text \<open>
  C2, amended. The repair of the diff tool's output (\<open>runOad\<close>), for every chunk that is
  not empty, replaces every closing brace followed by white space and an opening brace,
  from left to right, by \<open>},{\<close>, wraps the text in brackets and parses it: a text
  without such a gap is left as it is (a brace directly followed by a brace gets no
  comma), at the leftmost gap the text before it is kept, the gap becomes \<open>},{\<close> and the
  repair goes on behind it, and no gap is left; the text \<open>{ "a":1 } { "a":2 }\<close> gives
  exactly two records, in the order of the stream. The repair of the linter's output
  (\<open>getLinterResult\<close>), for every chunk with an opening brace, strips the progress-report
  lines (the prefix, the rest of a line that ends in \<open>} .\<close>, and its line feed), drops
  what precedes the first opening brace, trims the white space at both ends, puts a
  comma only between a closing brace, one line feed and an opening brace, wraps the text
  in brackets and parses it; each step leaves a text without a match as it is and
  rewrites the leftmost match as said. Two records on two lines give two records, in
  the order of the stream.
\<close>

theorem C2_repairs:
  \<open>(\<not> is_blank oldSpec \<and> \<not> is_blank newSpec \<and> compare (the oldSpec) (the newSpec) = Inr chunk \<and>
    chunk \<noteq> [] \<longrightarrow>
      runOad compare oldSpec newSpec =
        (case JSON_parse (''['' @ oad_fixup chunk @ '']'') of
           None \<Rightarrow> Inl SyntaxError
         | Some records \<Rightarrow> Inr (Some records))) \<and>
   (has_gap s \<longleftrightarrow>
      (\<exists>x ws y. ws \<noteq> [] \<and> list_all is_space ws \<and> s = x @ CHR ''}'' # ws @ CHR ''{'' # y)) \<and>
   (has_gap g \<longrightarrow>
      (\<exists>x ws y. \<not> has_gap x \<and> ws \<noteq> [] \<and> list_all is_space ws \<and>
         g = x @ CHR ''}'' # ws @ CHR ''{'' # y)) \<and>
   (\<not> has_gap s \<longrightarrow> oad_fixup s = s) \<and>
   (\<not> has_gap p \<and> gap \<noteq> [] \<and> list_all is_space gap \<longrightarrow>
      oad_fixup (p @ CHR ''}'' # gap @ CHR ''{'' # rest) = p @ ''},{'' @ oad_fixup rest) \<and>
   \<not> has_gap (oad_fixup s) \<and>
   runOad (\<lambda>_ _. Inr ''{ "a":1 } { "a":2 }'') (Some ''old.json'') (Some ''new.json'') =
     Inr (Some (JArray [JObject [(''a'', JNumber ''1'')], JObject [(''a'', JNumber ''2'')]])) \<and>
   (CHR ''{'' \<in> set out \<longrightarrow>
      repairLinterOutput out =
        (case JSON_parse (''['' @ join_lines (trim (from_first_brace (strip_noise out))) @ '']'') of
           Some records \<Rightarrow> Inr records
         | None \<Rightarrow> Inl (ProcessExit 1))) \<and>
   (noise_rest t = Some r \<longleftrightarrow>
      (\<exists>l. list_all (\<lambda>c. \<not> is_line_terminator c) l \<and>
           t = noise_prefix @ l @ ''} .'' @ [CHR 0x0A] @ r)) \<and>
   (noise_starts_in z [] \<longrightarrow>
      (\<exists>x y rest'. z = x @ y \<and> \<not> noise_starts_in x y \<and> noise_rest y = Some rest')) \<and>
   (\<not> noise_starts_in q t \<and> noise_rest t = Some r \<longrightarrow> strip_noise (q @ t) = q @ strip_noise r) \<and>
   (\<not> noise_starts_in n [] \<longrightarrow> strip_noise n = n) \<and>
   (CHR ''{'' \<notin> set b \<longrightarrow> from_first_brace (b @ CHR ''{'' # u) = CHR ''{'' # u) \<and>
   (list_all is_space w1 \<and> list_all is_space w2 \<and>
    (m = [] \<or> (\<not> is_space (hd m) \<and> \<not> is_space (last m))) \<longrightarrow> trim (w1 @ m @ w2) = m) \<and>
   (contains [CHR ''}'', CHR 0x0A, CHR ''{''] i \<longrightarrow>
      (\<exists>x y. \<not> contains [CHR ''}'', CHR 0x0A, CHR ''{''] x \<and>
         i = x @ [CHR ''}'', CHR 0x0A, CHR ''{''] @ y)) \<and>
   (\<not> contains [CHR ''}'', CHR 0x0A, CHR ''{''] j \<longrightarrow> join_lines j = j) \<and>
   (\<not> contains [CHR ''}'', CHR 0x0A, CHR ''{''] k \<longrightarrow>
      join_lines (k @ [CHR ''}'', CHR 0x0A, CHR ''{''] @ v) =
        k @ ''},'' @ [CHR 0x0A] @ ''{'' @ join_lines v) \<and>
   repairLinterOutput (''{ "a":1 }'' @ [CHR 0x0A] @ ''{ "a":2 }'') =
     Inr (JArray [JObject [(''a'', JNumber ''1'')], JObject [(''a'', JNumber ''2'')]])\<close>
proof (intro conjI impI)
  assume "\<not> is_blank oldSpec \<and> \<not> is_blank newSpec \<and> compare (the oldSpec) (the newSpec) = Inr chunk \<and>
    chunk \<noteq> []"
  then show "runOad compare oldSpec newSpec =
        (case JSON_parse (''['' @ oad_fixup chunk @ '']'') of
           None \<Rightarrow> Inl SyntaxError
         | Some records \<Rightarrow> Inr (Some records))"
    by (simp add: runOad_def)
next
  show "has_gap s \<longleftrightarrow>
      (\<exists>x ws y. ws \<noteq> [] \<and> list_all is_space ws \<and> s = x @ CHR ''}'' # ws @ CHR ''{'' # y)"
    by (rule has_gap_iff)
next
  assume "has_gap g"
  then show "\<exists>x ws y. \<not> has_gap x \<and> ws \<noteq> [] \<and> list_all is_space ws \<and>
         g = x @ CHR ''}'' # ws @ CHR ''{'' # y"
    by (rule has_gap_leftmost)
next
  assume "\<not> has_gap s"
  then show "oad_fixup s = s" by (rule oad_fixup_no_gap)
next
  assume "\<not> has_gap p \<and> gap \<noteq> [] \<and> list_all is_space gap"
  then show "oad_fixup (p @ CHR ''}'' # gap @ CHR ''{'' # rest) = p @ ''},{'' @ oad_fixup rest"
    using oad_fixup_leftmost [of p gap rest] by blast
next
  show "\<not> has_gap (oad_fixup s)" by (rule no_gap_fixup)
next
  show \<open>runOad (\<lambda>_ _. Inr ''{ "a":1 } { "a":2 }'') (Some ''old.json'') (Some ''new.json'') =
     Inr (Some (JArray [JObject [(''a'', JNumber ''1'')], JObject [(''a'', JNumber ''2'')]]))\<close>
    by code_simp
next
  assume "CHR ''{'' \<in> set out"
  then show "repairLinterOutput out =
        (case JSON_parse (''['' @ join_lines (trim (from_first_brace (strip_noise out))) @ '']'') of
           Some records \<Rightarrow> Inr records
         | None \<Rightarrow> Inl (ProcessExit 1))"
    by (simp add: repairLinterOutput_def linter_fixup_def)
next
  show "noise_rest t = Some r \<longleftrightarrow>
      (\<exists>l. list_all (\<lambda>c. \<not> is_line_terminator c) l \<and>
           t = noise_prefix @ l @ ''} .'' @ [CHR 0x0A] @ r)"
    by (rule noise_rest_iff)
next
  assume "noise_starts_in z []"
  then show "\<exists>x y rest'. z = x @ y \<and> \<not> noise_starts_in x y \<and> noise_rest y = Some rest'"
    by (rule noise_leftmost)
next
  assume "\<not> noise_starts_in q t \<and> noise_rest t = Some r"
  then show "strip_noise (q @ t) = q @ strip_noise r"
    using strip_noise_leftmost [of q t r] by blast
next
  assume "\<not> noise_starts_in n []"
  then show "strip_noise n = n" by (rule strip_noise_none)
next
  assume "CHR ''{'' \<notin> set b"
  then show "from_first_brace (b @ CHR ''{'' # u) = CHR ''{'' # u"
    by (rule from_first_brace_leftmost)
next
  assume "list_all is_space w1 \<and> list_all is_space w2 \<and>
    (m = [] \<or> (\<not> is_space (hd m) \<and> \<not> is_space (last m)))"
  then show "trim (w1 @ m @ w2) = m"
    using trim_middle [of w1 w2 m] by blast
next
  assume "contains [CHR ''}'', CHR 0x0A, CHR ''{''] i"
  then show "\<exists>x y. \<not> contains [CHR ''}'', CHR 0x0A, CHR ''{''] x \<and>
         i = x @ [CHR ''}'', CHR 0x0A, CHR ''{''] @ y"
    by (rule contains_leftmost)
next
  assume "\<not> contains [CHR ''}'', CHR 0x0A, CHR ''{''] j"
  then show "join_lines j = j" by (rule join_lines_none)
next
  assume "\<not> contains [CHR ''}'', CHR 0x0A, CHR ''{''] k"
  then show "join_lines (k @ [CHR ''}'', CHR 0x0A, CHR ''{''] @ v) =
        k @ ''},'' @ [CHR 0x0A] @ ''{'' @ join_lines v"
    by (rule join_lines_leftmost)
next
  show \<open>repairLinterOutput (''{ "a":1 }'' @ [CHR 0x0A] @ ''{ "a":2 }'') =
     Inr (JArray [JObject [(''a'', JNumber ''1'')], JObject [(''a'', JNumber ''2'')]])\<close>
    by code_simp
qed

theorem C2_repairs_witness:
  \<open>oad_fixup ''{ "a":1 } { "a":2 }'' = ''{ "a":1 },{ "a":2 }'' \<and>
   oad_fixup ''{"a":{}}{"a":2}'' = ''{"a":{}}{"a":2}'' \<and>
   \<not> has_gap (oad_fixup ''{"a":{}}{"a":2}'') \<and>
   runOad (\<lambda>_ _. Inr ''{ "a":1 } { "a":2 }'') (Some ''old.json'') (Some ''new.json'') =
     Inr (Some (JArray [JObject [(''a'', JNumber ''1'')], JObject [(''a'', JNumber ''2'')]])) \<and>
   strip_noise (''x'' @ noise_prefix @ ''"task": 1} .'' @ [CHR 0x0A] @ ''{ "a":1 }'') = ''x{ "a":1 }'' \<and>
   from_first_brace ''info: { "a":1 }'' = ''{ "a":1 }'' \<and>
   trim ('' { "a":1 }'' @ [CHR 0x0A]) = ''{ "a":1 }'' \<and>
   join_lines (''{ "a":1 }'' @ [CHR 0x0A] @ ''{ "a":2 }'') = ''{ "a":1 },'' @ [CHR 0x0A] @ ''{ "a":2 }'' \<and>
   repairLinterOutput (''{ "a":1 }'' @ [CHR 0x0A] @ ''{ "a":2 }'') =
     Inr (JArray [JObject [(''a'', JNumber ''1'')], JObject [(''a'', JNumber ''2'')]]) \<and>
   (\<exists>x ws y. \<not> has_gap x \<and> ws \<noteq> [] \<and> list_all is_space ws \<and>
      ''{ "a":1 } { "a":2 }'' = x @ CHR ''}'' # ws @ CHR ''{'' # y) \<and>
   (\<exists>x y rest'. ''x'' @ noise_prefix @ ''"task": 1} .'' @ [CHR 0x0A] @ ''{ "a":1 }'' = x @ y \<and>
      \<not> noise_starts_in x y \<and> noise_rest y = Some rest') \<and>
   (\<exists>x y. \<not> contains [CHR ''}'', CHR 0x0A, CHR ''{''] x \<and>
      ''{ "a":1 }'' @ [CHR 0x0A] @ ''{ "a":2 }'' = x @ [CHR ''}'', CHR 0x0A, CHR ''{''] @ y)\<close>
proof -
  let ?cmp = \<open>\<lambda>(_::string) (_::string). (Inr ''{ "a":1 } { "a":2 }'' :: error + string)\<close>
  let ?t = \<open>noise_prefix @ ''"task": 1} .'' @ [CHR 0x0A] @ ''{ "a":1 }''\<close>
  note c = C2_repairs [where oldSpec = "Some ''old.json''" and newSpec = "Some ''new.json''"
      and compare = ?cmp and chunk = \<open>''{ "a":1 } { "a":2 }''\<close> and s = \<open>''{"a":{}}{"a":2}''\<close>
      and g = \<open>''{ "a":1 } { "a":2 }''\<close> and z = \<open>''x'' @ ?t\<close>
      and i = \<open>''{ "a":1 }'' @ [CHR 0x0A] @ ''{ "a":2 }''\<close>
      and p = \<open>''{ "a":1 ''\<close> and gap = "'' ''" and rest = \<open>'' "a":2 }''\<close>
      and out = \<open>''{ "a":1 }'' @ [CHR 0x0A] @ ''{ "a":2 }''\<close>
      and t = ?t and r = \<open>''{ "a":1 }''\<close> and q = "''x''" and n = \<open>''{ "a":1 }''\<close>
      and b = "''info: ''" and u = \<open>'' "a":1 }''\<close>
      and ?w1.0 = "'' ''" and m = \<open>''{ "a":1 }''\<close> and ?w2.0 = "[CHR 0x0A]"
      and j = \<open>'' "a":2 }''\<close> and k = \<open>''{ "a":1 ''\<close> and v = \<open>'' "a":2 }''\<close>]
  note c1 = c [THEN conjunct1] and r1 = c [THEN conjunct2]
  note c2 = r1 [THEN conjunct1] and r2 = r1 [THEN conjunct2]
  note g3 = r2 [THEN conjunct1] and r3 = r2 [THEN conjunct2]
  note c3 = r3 [THEN conjunct1] and r4 = r3 [THEN conjunct2]
  note c4 = r4 [THEN conjunct1] and r5 = r4 [THEN conjunct2]
  note c5 = r5 [THEN conjunct1] and r6 = r5 [THEN conjunct2]
  note c6 = r6 [THEN conjunct1] and r7 = r6 [THEN conjunct2]
  note c7 = r7 [THEN conjunct1] and r8 = r7 [THEN conjunct2]
  note c8 = r8 [THEN conjunct1] and r9 = r8 [THEN conjunct2]
  note z10 = r9 [THEN conjunct1] and r10 = r9 [THEN conjunct2]
  note c9 = r10 [THEN conjunct1] and r11 = r10 [THEN conjunct2]
  note c10 = r11 [THEN conjunct1] and r12 = r11 [THEN conjunct2]
  note c11 = r12 [THEN conjunct1] and r13 = r12 [THEN conjunct2]
  note c12 = r13 [THEN conjunct1] and r14 = r13 [THEN conjunct2]
  note i15 = r14 [THEN conjunct1] and r15 = r14 [THEN conjunct2]
  note c13 = r15 [THEN conjunct1] and r16 = r15 [THEN conjunct2]
  note c14 = r16 [THEN conjunct1] and r17 = r16 [THEN conjunct2]
  note c15 = r17
  have h1: \<open>\<not> is_blank (Some ''old.json'') \<and> \<not> is_blank (Some ''new.json'') \<and>
      ?cmp (the (Some ''old.json'')) (the (Some ''new.json'')) = Inr ''{ "a":1 } { "a":2 }'' \<and>
      ''{ "a":1 } { "a":2 }'' \<noteq> []\<close>
    by code_simp
  have p1: \<open>JSON_parse (''['' @ oad_fixup ''{ "a":1 } { "a":2 }'' @ '']'') =
      Some (JArray [JObject [(''a'', JNumber ''1'')], JObject [(''a'', JNumber ''2'')]])\<close>
    by code_simp
  from c1 h1 have a1: \<open>runOad ?cmp (Some ''old.json'') (Some ''new.json'') =
      Inr (Some (JArray [JObject [(''a'', JNumber ''1'')], JObject [(''a'', JNumber ''2'')]]))\<close>
    by (simp only: p1) simp
  have h3: \<open>\<not> has_gap ''{"a":{}}{"a":2}''\<close> by code_simp
  from c3 h3 have a3: \<open>oad_fixup ''{"a":{}}{"a":2}'' = ''{"a":{}}{"a":2}''\<close> by blast
  have h4: \<open>\<not> has_gap ''{ "a":1 '' \<and> '' '' \<noteq> [] \<and> list_all is_space '' ''\<close> by code_simp
  have f4: \<open>oad_fixup '' "a":2 }'' = '' "a":2 }''\<close> by code_simp
  from c4 h4 have \<open>oad_fixup (''{ "a":1 '' @ CHR ''}'' # '' '' @ CHR ''{'' # '' "a":2 }'') =
      ''{ "a":1 '' @ ''},{'' @ oad_fixup '' "a":2 }''\<close> by blast
  then have a4: \<open>oad_fixup ''{ "a":1 } { "a":2 }'' = ''{ "a":1 },{ "a":2 }''\<close>
    by (simp add: f4 del: oad_fixup.simps)
  have a5: \<open>\<not> has_gap (oad_fixup ''{"a":{}}{"a":2}'')\<close> by (rule c5)
  have \<open>\<exists>l. list_all (\<lambda>c. \<not> is_line_terminator c) l \<and>
      ?t = noise_prefix @ l @ ''} .'' @ [CHR 0x0A] @ ''{ "a":1 }''\<close>
    by (rule exI [of _ \<open>''"task": 1''\<close>]) (simp add: is_line_terminator_def)
  with c8 have a8: \<open>noise_rest ?t = Some ''{ "a":1 }''\<close> by blast
  have h9: \<open>\<not> noise_starts_in ''x'' ?t\<close> by code_simp
  have h10: \<open>\<not> noise_starts_in ''{ "a":1 }'' []\<close> by code_simp
  from c10 h10 have a10: \<open>strip_noise ''{ "a":1 }'' = ''{ "a":1 }''\<close> by blast
  from c9 h9 a8 have \<open>strip_noise (''x'' @ ?t) = ''x'' @ strip_noise ''{ "a":1 }''\<close> by blast
  then have a9: \<open>strip_noise (''x'' @ ?t) = ''x{ "a":1 }''\<close> by (simp add: a10 del: strip_noise.simps)
  have h11: "CHR ''{'' \<notin> set ''info: ''" by simp
  from c11 h11 have \<open>from_first_brace (''info: '' @ CHR ''{'' # '' "a":1 }'') = CHR ''{'' # '' "a":1 }''\<close>
    by blast
  then have a11: \<open>from_first_brace ''info: { "a":1 }'' = ''{ "a":1 }''\<close> by simp
  have h12: \<open>list_all is_space '' '' \<and> list_all is_space [CHR 0x0A] \<and>
      (''{ "a":1 }'' = [] \<or> (\<not> is_space (hd ''{ "a":1 }'') \<and> \<not> is_space (last ''{ "a":1 }'')))\<close>
    by (simp add: is_space_def)
  from c12 h12 have \<open>trim ('' '' @ ''{ "a":1 }'' @ [CHR 0x0A]) = ''{ "a":1 }''\<close> by blast
  then have a12: \<open>trim ('' { "a":1 }'' @ [CHR 0x0A]) = ''{ "a":1 }''\<close> by simp
  have h13: \<open>\<not> contains [CHR ''}'', CHR 0x0A, CHR ''{''] '' "a":2 }''\<close> by code_simp
  from c13 h13 have a13: \<open>join_lines '' "a":2 }'' = '' "a":2 }''\<close> by blast
  have h14: \<open>\<not> contains [CHR ''}'', CHR 0x0A, CHR ''{''] ''{ "a":1 ''\<close> by code_simp
  from c14 h14 have \<open>join_lines (''{ "a":1 '' @ [CHR ''}'', CHR 0x0A, CHR ''{''] @ '' "a":2 }'') =
      ''{ "a":1 '' @ ''},'' @ [CHR 0x0A] @ ''{'' @ join_lines '' "a":2 }''\<close> by blast
  then have a14: \<open>join_lines (''{ "a":1 }'' @ [CHR 0x0A] @ ''{ "a":2 }'') =
      ''{ "a":1 },'' @ [CHR 0x0A] @ ''{ "a":2 }''\<close>
    by (simp add: a13 del: join_lines.simps)
  have h7: \<open>CHR ''{'' \<in> set (''{ "a":1 }'' @ [CHR 0x0A] @ ''{ "a":2 }'')\<close> by simp
  have p7: \<open>JSON_parse (''['' @ join_lines (trim (from_first_brace (strip_noise
      (''{ "a":1 }'' @ [CHR 0x0A] @ ''{ "a":2 }'')))) @ '']'') =
      Some (JArray [JObject [(''a'', JNumber ''1'')], JObject [(''a'', JNumber ''2'')]])\<close>
    by code_simp
  from c7 h7 have a7: \<open>repairLinterOutput (''{ "a":1 }'' @ [CHR 0x0A] @ ''{ "a":2 }'') =
      Inr (JArray [JObject [(''a'', JNumber ''1'')], JObject [(''a'', JNumber ''2'')]])\<close>
    by (simp only: p7) simp
  have hg: \<open>has_gap ''{ "a":1 } { "a":2 }''\<close> by code_simp
  from g3 hg have e1: \<open>\<exists>x ws y. \<not> has_gap x \<and> ws \<noteq> [] \<and> list_all is_space ws \<and>
      ''{ "a":1 } { "a":2 }'' = x @ CHR ''}'' # ws @ CHR ''{'' # y\<close>
    by (rule mp)
  have hz: \<open>noise_starts_in (''x'' @ ?t) []\<close> by code_simp
  from z10 hz have e2: \<open>\<exists>x y rest'. ''x'' @ ?t = x @ y \<and>
      \<not> noise_starts_in x y \<and> noise_rest y = Some rest'\<close>
    by (rule mp)
  have hi: \<open>contains [CHR ''}'', CHR 0x0A, CHR ''{''] (''{ "a":1 }'' @ [CHR 0x0A] @ ''{ "a":2 }'')\<close>
    by code_simp
  from i15 hi have e3: \<open>\<exists>x y. \<not> contains [CHR ''}'', CHR 0x0A, CHR ''{''] x \<and>
      ''{ "a":1 }'' @ [CHR 0x0A] @ ''{ "a":2 }'' = x @ [CHR ''}'', CHR 0x0A, CHR ''{''] @ y\<close>
    by (rule mp)
  show ?thesis
    by (intro conjI) (rule a4 a3 a5 a1 a9 a11 a12 a14 a7 e1 e2 e3)+
qed

text \<open>
  C9. For every raw chunk without an opening brace, the repair of the linter's output
  returns the empty sequence of findings and does not fail; so does \<open>getLinterResult\<close>
  when that chunk is what the tool printed (and the run was not cancelled).
\<close>

theorem C9_no_brace_no_findings:
  assumes "CHR ''{'' \<notin> set chunk"
  shows "repairLinterOutput chunk = Inr (JArray []) \<and>
         (\<not> is_blank (Some swaggerPath) \<and> existsSync t swaggerPath \<and>
          exec t (''npx autorest --reset && '' @ linterCmd @ swaggerPath) = r \<and>
          stdout r @ stderr r = chunk \<and>
          \<not> (err r \<and> contains ''Process() cancelled due to exception'' (stderr r)) \<longrightarrow>
            snd (getLinterResult t (Some swaggerPath)) = Inr (JArray []))"
proof (intro conjI impI)
  from assms show e: "repairLinterOutput chunk = Inr (JArray [])"
    by (simp add: repairLinterOutput_def)
  assume h: "\<not> is_blank (Some swaggerPath) \<and> existsSync t swaggerPath \<and>
          exec t (''npx autorest --reset && '' @ linterCmd @ swaggerPath) = r \<and>
          stdout r @ stderr r = chunk \<and>
          \<not> (err r \<and> contains ''Process() cancelled due to exception'' (stderr r))"
  then have "snd (getLinterResult t (Some swaggerPath)) = repairLinterOutput (stdout r @ stderr r)"
    by (auto simp: getLinterResult_def Let_def)
  with h e show "snd (getLinterResult t (Some swaggerPath)) = Inr (JArray [])" by simp
qed

theorem C9_no_brace_no_findings_witness:
  "CHR ''{'' \<notin> set ''AutoRest code generation utility'' \<and>
   repairLinterOutput ''AutoRest code generation utility'' = Inr (JArray []) \<and>
   snd (getLinterResult quiet_tree (Some ''readme.md'')) = Inr (JArray [])"
proof -
  have n: "CHR ''{'' \<notin> set ''AutoRest code generation utility''" by simp
  have h: "\<not> is_blank (Some ''readme.md'') \<and> existsSync quiet_tree ''readme.md'' \<and>
      exec quiet_tree (''npx autorest --reset && '' @ linterCmd @ ''readme.md'') =
        \<lparr>err = False, stdout = ''AutoRest code generation utility'', stderr = []\<rparr> \<and>
      stdout \<lparr>err = False, stdout = ''AutoRest code generation utility'', stderr = []\<rparr> @
        stderr \<lparr>err = False, stdout = ''AutoRest code generation utility'', stderr = []\<rparr> =
        ''AutoRest code generation utility'' \<and>
      \<not> (err \<lparr>err = False, stdout = ''AutoRest code generation utility'', stderr = []\<rparr> \<and>
         contains ''Process() cancelled due to exception''
           (stderr \<lparr>err = False, stdout = ''AutoRest code generation utility'', stderr = []\<rparr>))"
    by (simp add: is_blank_def trim_def is_space_def quiet_tree_def)
  note c9 = C9_no_brace_no_findings [OF n, of "''readme.md''" quiet_tree
      "\<lparr>err = False, stdout = ''AutoRest code generation utility'', stderr = []\<rparr>"]
  from c9 have a: "repairLinterOutput ''AutoRest code generation utility'' = Inr (JArray [])"
    by (rule conjunct1)
  from c9 h have b: "snd (getLinterResult quiet_tree (Some ''readme.md'')) = Inr (JArray [])"
    by blast
  from n a b show ?thesis by blast
qed

section \<open>The counts of the breaking-change run\<close>

lemma count_diffs_fields:
  "diffFiles (count_diffs ds st) = diffFiles st \<and> newFiles (count_diffs ds st) = newFiles st"
  by (induction ds arbitrary: st) simp_all

lemma count_diffs_errors:
  "errors (count_diffs ds st) = errors st + count_severity ''Error'' ds"
  by (induction ds arbitrary: st) (simp_all add: count_severity_def)

lemma count_diffs_warnings:
  "warnings (count_diffs ds st) = warnings st + count_severity ''Warning'' ds"
  by (induction ds arbitrary: st) (simp_all add: count_severity_def)

lemma count_diffs_exitCode:
  "exitCode st = (if errors st = 0 then ec else 1) \<Longrightarrow>
   exitCode (count_diffs ds st) = (if errors (count_diffs ds st) = 0 then ec else 1)"
  by (induction ds arbitrary: st) simp_all

lemma total_severity_update:
  assumes "finite (dom m)" and "f \<notin> dom m"
  shows "total_severity t (m(f \<mapsto> ds)) = count_severity t ds + total_severity t m"
proof -
  have "(\<Sum>g\<in>dom m. count_severity t (the ((m(f \<mapsto> ds)) g))) =
        (\<Sum>g\<in>dom m. count_severity t (the (m g)))"
    using assms(2) by (intro sum.cong) auto
  with assms show ?thesis
    by (simp add: total_severity_def)
qed

text \<open>One round of the loop of the breaking-change run.\<close>

lemma diff_loop_Cons:
  assumes "diff_loop compare asDiff new resolved (swagger # rest) st = Inr st'"
  obtains (new_file) "swagger \<in> set new"
      "diff_loop compare asDiff new resolved rest (st\<lparr>newFiles := newFiles st @ [swagger]\<rparr>) = Inr st'"
    | (skipped) "swagger \<notin> set new" "diff_loop compare asDiff new resolved rest st = Inr st'"
    | (compared) ds where "swagger \<notin> set new"
      "diff_loop compare asDiff new resolved rest
         (count_diffs ds (st\<lparr>diffFiles := (diffFiles st)(swagger \<mapsto> ds)\<rparr>)) = Inr st'"
  using assms
  by (auto split: if_splits option.splits sum.splits json.splits)

definition aggregated :: "int \<Rightarrow> run_state \<Rightarrow> bool" where
  "aggregated ec st \<longleftrightarrow>
     finite (dom (diffFiles st)) \<and>
     errors st = total_severity ''Error'' (diffFiles st) \<and>
     warnings st = total_severity ''Warning'' (diffFiles st) \<and>
     exitCode st = (if errors st = 0 then ec else 1)"

lemma aggregated_compared:
  assumes "aggregated ec st" and "swagger \<notin> dom (diffFiles st)"
  shows "aggregated ec (count_diffs ds (st\<lparr>diffFiles := (diffFiles st)(swagger \<mapsto> ds)\<rparr>))"
proof -
  let ?st1 = "st\<lparr>diffFiles := (diffFiles st)(swagger \<mapsto> ds)\<rparr>"
  from assms have fin: "finite (dom (diffFiles st))" by (simp add: aggregated_def)
  have "exitCode ?st1 = (if errors ?st1 = 0 then ec else 1)"
    using assms(1) by (simp add: aggregated_def)
  then have "exitCode (count_diffs ds ?st1) = (if errors (count_diffs ds ?st1) = 0 then ec else 1)"
    by (rule count_diffs_exitCode)
  with assms fin show ?thesis
    unfolding aggregated_def
    by (simp add: count_diffs_fields count_diffs_errors count_diffs_warnings total_severity_update)
qed

lemma diff_loop_aggregated:
  assumes "diff_loop compare asDiff new resolved swaggers st = Inr st'"
    and "aggregated ec st" and "distinct swaggers" and "set swaggers \<inter> dom (diffFiles st) = {}"
  shows "aggregated ec st'"
  using assms
proof (induction swaggers arbitrary: st)
  case Nil
  then show ?case by simp
next
  case (Cons swagger rest)
  from Cons.prems(1) show ?case
  proof (cases rule: diff_loop_Cons)
    case new_file
    show ?thesis
    proof (rule Cons.IH [OF new_file(2)])
      show "aggregated ec (st\<lparr>newFiles := newFiles st @ [swagger]\<rparr>)"
        using Cons.prems(2) by (simp add: aggregated_def)
    qed (use Cons.prems(3,4) in auto)
  next
    case skipped
    show ?thesis
      by (rule Cons.IH [OF skipped(2)]) (use Cons.prems(2,3,4) in auto)
  next
    case (compared ds)
    from Cons.prems(4) have fresh: "swagger \<notin> dom (diffFiles st)" by auto
    show ?thesis
    proof (rule Cons.IH [OF compared(2)])
      show "aggregated ec (count_diffs ds (st\<lparr>diffFiles := (diffFiles st)(swagger \<mapsto> ds)\<rparr>))"
        using Cons.prems(2) fresh by (rule aggregated_compared)
      show "distinct rest" using Cons.prems(3) by simp
      have "dom (diffFiles (count_diffs ds (st\<lparr>diffFiles := (diffFiles st)(swagger \<mapsto> ds)\<rparr>))) =
            insert swagger (dom (diffFiles st))"
        by (simp add: count_diffs_fields)
      with Cons.prems(3,4)
      show "set rest \<inter> dom (diffFiles (count_diffs ds (st\<lparr>diffFiles := (diffFiles st)(swagger \<mapsto> ds)\<rparr>))) = {}"
        by auto
    qed
  qed
qed

lemma diff_loop_newFiles:
  assumes "diff_loop compare asDiff new resolved swaggers st = Inr st'"
  shows "newFiles st' = newFiles st @ filter (\<lambda>s. s \<in> set new) swaggers \<and>
         dom (diffFiles st') \<subseteq> dom (diffFiles st) \<union> {s \<in> set swaggers. s \<notin> set new}"
  using assms
proof (induction swaggers arbitrary: st)
  case Nil
  then show ?case by simp
next
  case (Cons swagger rest)
  from Cons.prems show ?case
  proof (cases rule: diff_loop_Cons)
    case new_file
    from Cons.IH [OF new_file(2)] new_file(1) show ?thesis by auto
  next
    case skipped
    from Cons.IH [OF skipped(2)] skipped(1) show ?thesis by auto
  next
    case (compared ds)
    have "dom (diffFiles (count_diffs ds (st\<lparr>diffFiles := (diffFiles st)(swagger \<mapsto> ds)\<rparr>))) =
          insert swagger (dom (diffFiles st))"
      by (simp add: count_diffs_fields)
    moreover have "newFiles (count_diffs ds (st\<lparr>diffFiles := (diffFiles st)(swagger \<mapsto> ds)\<rparr>)) = newFiles st"
      by (simp add: count_diffs_fields)
    ultimately show ?thesis
      using Cons.IH [OF compared(2)] compared(1) by auto
  qed
qed

lemma digit_char_digit: "d < 10 \<Longrightarrow> digit_char d \<in> set ''0123456789''"
  unfolding digit_char_def by (rule nth_mem) simp

lemma String_nat_digit: "String_nat n \<noteq> [] \<and> hd (String_nat n) \<in> set ''0123456789''"
proof (induction n rule: String_nat.induct)
  case (1 n)
  show ?case
  proof (cases "n < 10")
    case True
    then have "String_nat n = [digit_char n]" by (subst String_nat.simps) simp
    with digit_char_digit [OF True] show ?thesis by simp
  next
    case False
    then have "String_nat n = String_nat (n div 10) @ [digit_char (n mod 10)]"
      by (subst String_nat.simps) simp
    with False 1 show ?thesis by simp
  qed
qed

lemma title_clean: "title n = ''No potential breaking changes'' \<longleftrightarrow> n = 0"
proof (cases "n = 0")
  case True
  then show ?thesis by (simp add: title_def)
next
  case False
  from String_nat_digit [of n] obtain c cs where s: "String_nat n = c # cs" and c: "c \<in> set ''0123456789''"
    by (cases "String_nat n") auto
  from c have "c \<noteq> CHR ''N''" by auto
  with False s show ?thesis by (simp add: title_def)
qed

text \<open>
  C3. For every run, \<open>errors\<close> is the number of findings of severity \<open>Error\<close> and
  \<open>warnings\<close> the number of findings of severity \<open>Warning\<close>, summed over the files of the
  report; the run is clean (the title says \<open>No potential breaking changes\<close>, and the
  loop leaves the exit code as it found it) exactly when \<open>errors\<close> is zero; and a run
  that compared no file has both counts zero and is clean.
\<close>

theorem C3_counts_and_clean:
  assumes "distinct swaggersToProcess"
    and "diff_loop compare asDiff newSwaggers resolvedMap swaggersToProcess (initial_state ec) = Inr st"
  shows "errors st = total_severity ''Error'' (diffFiles st) \<and>
         warnings st = total_severity ''Warning'' (diffFiles st) \<and>
         (title (errors st) = ''No potential breaking changes'' \<longleftrightarrow> errors st = 0) \<and>
         exitCode st = (if errors st = 0 then ec else 1) \<and>
         (dom (diffFiles st) = {} \<longrightarrow>
            errors st = 0 \<and> warnings st = 0 \<and> title (errors st) = ''No potential breaking changes'')"
proof -
  have "aggregated ec (initial_state ec)"
    by (simp add: aggregated_def initial_state_def total_severity_def)
  with assms(2) have agg: "aggregated ec st"
    by (rule diff_loop_aggregated) (use assms(1) in \<open>simp_all add: initial_state_def\<close>)
  then have e: "errors st = total_severity ''Error'' (diffFiles st)"
    and w: "warnings st = total_severity ''Warning'' (diffFiles st)"
    and x: "exitCode st = (if errors st = 0 then ec else 1)"
    by (simp_all add: aggregated_def)
  have "errors st = 0 \<and> warnings st = 0" if "dom (diffFiles st) = {}"
    using e w that by (simp add: total_severity_def)
  with e w x show ?thesis by (simp add: title_clean)
qed

lemma sample_diff_loop:
  "diff_loop oad_sample readDiff [''c.json''] sample_resolved [''a.json'', ''b.json'', ''c.json'']
     (initial_state 0) = Inr sample_state"
proof -
  have a: "runOad oad_sample (Some ''a.json'') (Some ''/tmp/resolved/a.json'') =
      Inr (Some (JArray
        [JObject [(''type'', JString ''Error''), (''id'', JString ''1005'')],
         JObject [(''type'', JString ''Warning''), (''id'', JString ''1002'')],
         JObject [(''type'', JString ''Warning''), (''id'', JString ''1001'')]]))"
    by code_simp
  have b: "runOad oad_sample (Some ''b.json'') (Some ''/tmp/resolved/b.json'') = Inr None"
    by code_simp
  show ?thesis
    by (simp add: a b initial_state_def sample_state_def sample_resolved_def readDiff_def field_def)
qed

theorem C3_counts_and_clean_witness:
  "diff_loop oad_sample readDiff [''c.json''] sample_resolved [''a.json'', ''b.json'', ''c.json'']
     (initial_state 0) = Inr sample_state \<and>
   errors sample_state = 1 \<and> warnings sample_state = 2 \<and> exitCode sample_state = 1 \<and>
   total_severity ''Error'' (diffFiles sample_state) = 1 \<and>
   total_severity ''Warning'' (diffFiles sample_state) = 2 \<and>
   title (errors sample_state) \<noteq> ''No potential breaking changes'' \<and>
   diff_loop oad_sample readDiff [''c.json''] sample_resolved [] (initial_state 0) =
     Inr (initial_state 0) \<and>
   errors (initial_state 0) = 0 \<and> warnings (initial_state 0) = 0 \<and>
   title (errors (initial_state 0)) = ''No potential breaking changes''"
proof -
  have none: "diff_loop oad_sample readDiff [''c.json''] sample_resolved [] (initial_state 0) =
      Inr (initial_state 0)"
    by simp
  have "distinct ([] :: string list)" by simp
  note c3_none = C3_counts_and_clean [OF this none]
  have no_files: "dom (diffFiles (initial_state 0)) = {}" by (simp add: initial_state_def)
  have clean: "errors (initial_state 0) = 0 \<and> warnings (initial_state 0) = 0 \<and>
      title (errors (initial_state 0)) = ''No potential breaking changes''"
    using c3_none [THEN conjunct2, THEN conjunct2, THEN conjunct2, THEN conjunct2] no_files
    by (rule mp)
  have d: "distinct [''a.json'', ''b.json'', ''c.json'']" by simp
  note c3 = C3_counts_and_clean [OF d sample_diff_loop]
  have e: "errors sample_state = 1" and w: "warnings sample_state = 2"
    and x: "exitCode sample_state = 1"
    by (simp_all add: sample_state_def)
  have te: "total_severity ''Error'' (diffFiles sample_state) = errors sample_state"
    by (rule c3 [THEN conjunct1, symmetric])
  have tw: "total_severity ''Warning'' (diffFiles sample_state) = warnings sample_state"
    by (rule c3 [THEN conjunct2, THEN conjunct1, symmetric])
  have ti: "(title (errors sample_state) = ''No potential breaking changes'') = (errors sample_state = 0)"
    by (rule c3 [THEN conjunct2, THEN conjunct2, THEN conjunct1])
  from ti e have t: "title (errors sample_state) \<noteq> ''No potential breaking changes''" by simp
  from te e have te1: "total_severity ''Error'' (diffFiles sample_state) = 1" by simp
  from tw w have tw2: "total_severity ''Warning'' (diffFiles sample_state) = 2" by simp
  from sample_diff_loop e w x te1 tw2 t none clean show ?thesis by blast
qed

section \<open>The trace and the report of the linter run\<close>

lemma updateResult_files:
  "files (updateResult spec errs ph st) =
     (files st)(spec \<mapsto> (case files st spec of None \<Rightarrow> Map.empty | Some fs \<Rightarrow> fs)(ph \<mapsto> errs))"
  by (auto simp: updateResult_def Let_def)

lemma updateResult_rest:
  "events (updateResult spec errs ph st) = events st \<and> written (updateResult spec errs ph st) = written st"
  by (simp add: updateResult_def Let_def)

lemma runTools_None:
  assumes "runTools t f ph st = (None, st')"
  shows "\<exists>v. snd (getLinterResult t (Some f)) = Inr v \<and>
     files st' = (files st)(f \<mapsto> (case files st f of None \<Rightarrow> Map.empty | Some fs \<Rightarrow> fs)(ph \<mapsto> v))"
    and "events st' = events st @ run_events t ph [f]"
    and "written st' = written st"
  using assms
  by (auto simp: runTools_def Let_def run_events_def updateResult_files updateResult_rest
      split: prod.splits sum.splits)

lemma runTools_Some:
  assumes "runTools t f ph st = (Some e, st')"
  shows "snd (getLinterResult t (Some f)) = Inl e"
    and "files st' = files st"
    and "events st' = events st @ run_events t ph [f]"
    and "written st' = written st"
  using assms
  by (auto simp: runTools_def Let_def run_events_def split: prod.splits sum.splits)

lemma run_events_Cons: "run_events t ph (c # cs) = run_events t ph [c] @ run_events t ph cs"
  by (simp add: run_events_def)

lemma run_events_append: "run_events t ph (xs @ ys) = run_events t ph xs @ run_events t ph ys"
  by (simp add: run_events_def)

lemma run_events_Nil: "run_events t ph [] = []"
  by (simp add: run_events_def)

lemma forEach_Cons_None:
  assumes "forEach f (x # xs) st = (None, st')"
  obtains st1 where "f x st = (None, st1)" and "forEach f xs st1 = (None, st')"
  using assms by (auto split: prod.splits option.splits)

lemma forEach_Cons_Some:
  assumes "forEach f (x # xs) st = (Some e, st')"
  obtains (here) "f x st = (Some e, st')"
    | (later) st1 where "f x st = (None, st1)" and "forEach f xs st1 = (Some e, st')"
  using assms by (auto split: prod.splits option.splits)

lemma runTools_recorded:
  assumes "runTools t g ph st = (None, st')"
  shows "recorded t ph st' g" and "recorded t ph st f \<Longrightarrow> recorded t ph st' f"
proof -
  from runTools_None(1) [OF assms] obtain v where v: "snd (getLinterResult t (Some g)) = Inr v"
    and fl: "files st' = (files st)(g \<mapsto> (case files st g of None \<Rightarrow> Map.empty | Some fs \<Rightarrow> fs)(ph \<mapsto> v))"
    by blast
  show "recorded t ph st' g"
    unfolding recorded_def using v fl by simp
  show "recorded t ph st' f" if "recorded t ph st f"
  proof (cases "f = g")
    case True
    then show ?thesis using \<open>recorded t ph st' g\<close> by simp
  next
    case False
    with that fl show ?thesis unfolding recorded_def by simp
  qed
qed

lemma forEach_runTools_None:
  assumes "forEach (\<lambda>c. runTools t c ph) cs st = (None, st')"
  shows "dom (files st') = dom (files st) \<union> set cs \<and>
         events st' = events st @ run_events t ph cs \<and> written st' = written st"
  using assms
proof (induction cs arbitrary: st)
  case Nil
  then show ?case by (simp add: run_events_Nil)
next
  case (Cons c cs)
  from Cons.prems obtain st1 where a: "runTools t c ph st = (None, st1)"
    and b: "forEach (\<lambda>c. runTools t c ph) cs st1 = (None, st')"
    by (rule forEach_Cons_None)
  from runTools_None(1) [OF a] have "dom (files st1) = insert c (dom (files st))" by auto
  with runTools_None(2,3) [OF a] Cons.IH [OF b] show ?case
    by (auto simp: run_events_Cons [of t ph c cs])
qed

lemma forEach_runTools_keeps:
  assumes "forEach (\<lambda>c. runTools t c ph) cs st = (None, st')" and "recorded t ph st f"
  shows "recorded t ph st' f"
  using assms
proof (induction cs arbitrary: st)
  case Nil
  then show ?case by simp
next
  case (Cons c cs)
  from Cons.prems(1) obtain st1 where a: "runTools t c ph st = (None, st1)"
    and b: "forEach (\<lambda>c. runTools t c ph) cs st1 = (None, st')"
    by (rule forEach_Cons_None)
  from runTools_recorded(2) [OF a Cons.prems(2)] have "recorded t ph st1 f" .
  with b show ?case by (rule Cons.IH)
qed

lemma runTools_recorded_other:
  assumes "runTools t g ph st = (None, st')" and "recorded t' ph' st f" and "ph' \<noteq> ph"
  shows "recorded t' ph' st' f"
proof -
  from runTools_None(1) [OF assms(1)] obtain v where
    fl: "files st' = (files st)(g \<mapsto> (case files st g of None \<Rightarrow> Map.empty | Some fs \<Rightarrow> fs)(ph \<mapsto> v))"
    by blast
  from assms(2) obtain fs w where r: "files st f = Some fs" "fs ph' = Some w"
    "snd (getLinterResult t' (Some f)) = Inr w"
    unfolding recorded_def by blast
  show ?thesis
  proof (cases "f = g")
    case True
    with fl r assms(3) show ?thesis unfolding recorded_def by simp
  next
    case False
    with fl r show ?thesis unfolding recorded_def by simp
  qed
qed

lemma forEach_runTools_keeps_other:
  assumes "forEach (\<lambda>c. runTools t c ph) cs st = (None, st')" and "recorded t' ph' st f"
    and "ph' \<noteq> ph"
  shows "recorded t' ph' st' f"
  using assms(1,2)
proof (induction cs arbitrary: st)
  case Nil
  then show ?case by simp
next
  case (Cons c cs)
  from Cons.prems(1) obtain st1 where a: "runTools t c ph st = (None, st1)"
    and b: "forEach (\<lambda>c. runTools t c ph) cs st1 = (None, st')"
    by (rule forEach_Cons_None)
  from runTools_recorded_other [OF a Cons.prems(2) assms(3)] have "recorded t' ph' st1 f" .
  with b show ?case by (rule Cons.IH)
qed

lemma forEach_runTools_recorded:
  assumes "forEach (\<lambda>c. runTools t c ph) cs st = (None, st')"
  shows "list_all (recorded t ph st') cs"
  using assms
proof (induction cs arbitrary: st)
  case Nil
  then show ?case by simp
next
  case (Cons c cs)
  from Cons.prems obtain st1 where a: "runTools t c ph st = (None, st1)"
    and b: "forEach (\<lambda>c. runTools t c ph) cs st1 = (None, st')"
    by (rule forEach_Cons_None)
  from runTools_recorded(1) [OF a] have "recorded t ph st1 c" .
  with b have "recorded t ph st' c" by (rule forEach_runTools_keeps)
  with Cons.IH [OF b] show ?case by simp
qed

text \<open>A loop of runs that fails: where it stopped.\<close>

lemma forEach_runTools_Some:
  assumes "forEach (\<lambda>c. runTools t c ph) cs st = (Some e, st')"
  shows "\<exists>pre f post. cs = pre @ f # post \<and> list_all (succeeds t) pre \<and>
           snd (getLinterResult t (Some f)) = Inl e \<and>
           events st' = events st @ run_events t ph (pre @ [f]) \<and> written st' = written st"
  using assms
proof (induction cs arbitrary: st)
  case Nil
  then show ?case by simp
next
  case (Cons c cs)
  from Cons.prems show ?case
  proof (cases rule: forEach_Cons_Some)
    case here
    from runTools_Some [OF here] have "c # cs = [] @ c # cs \<and> list_all (succeeds t) [] \<and>
           snd (getLinterResult t (Some c)) = Inl e \<and>
           events st' = events st @ run_events t ph ([] @ [c]) \<and> written st' = written st"
      by simp
    then show ?thesis by blast
  next
    case (later st1)
    from Cons.IH [OF later(2)] obtain pre f post where p: "cs = pre @ f # post"
      "list_all (succeeds t) pre" "snd (getLinterResult t (Some f)) = Inl e"
      "events st' = events st1 @ run_events t ph (pre @ [f])" "written st' = written st1"
      by blast
    from runTools_None [OF later(1)] have c: "succeeds t c"
      "events st1 = events st @ run_events t ph [c]" "written st1 = written st"
      by (auto simp: succeeds_def)
    have "c # cs = (c # pre) @ f # post \<and> list_all (succeeds t) (c # pre) \<and>
           snd (getLinterResult t (Some f)) = Inl e \<and>
           events st' = events st @ run_events t ph ((c # pre) @ [f]) \<and> written st' = written st"
      using p c by (simp add: run_events_Cons [of t ph c "pre @ [f]"])
    then show ?thesis by blast
  qed
qed

lemma runTools_fst:
  "fst (runTools t f ph st) = (case snd (getLinterResult t (Some f)) of Inl e \<Rightarrow> Some e | Inr v \<Rightarrow> None)"
  by (simp add: runTools_def Let_def split: prod.splits sum.splits)


lemma forEach_runTools_succeeds:
  assumes "list_all (succeeds t) cs"
  shows "fst (forEach (\<lambda>c. runTools t c ph) cs st) = None"
  using assms
proof (induction cs arbitrary: st)
  case Nil
  then show ?case by simp
next
  case (Cons c cs)
  obtain r st1 where r: "runTools t c ph st = (r, st1)" by (cases "runTools t c ph st")
  from Cons.prems have "succeeds t c" by simp
  with runTools_fst [of t c ph st] r have "r = None"
    by (simp add: succeeds_def split: sum.splits)
  with r Cons.IH [of st1] Cons.prems show ?case by simp
qed

lemma list_all_run_events_after: "list_all after_event (run_events t ''after'' cs)"
  by (auto simp: run_events_def after_event_def list_all_iff)

lemma list_all_run_events_before: "list_all before_event (run_events t ''before'' cs)"
  by (auto simp: run_events_def before_event_def list_all_iff)


text \<open>The three ways a run of the script goes.\<close>

lemma runScript_cases:
  obtains (empty) "configs = []"
      "runScript checkout current target configs st = (None, st\<lparr>written := Some (files st)\<rparr>)"
    | (after_failed) e st1 where "configs \<noteq> []"
      "forEach (\<lambda>c. runTools current c ''after'') configs st = (Some e, st1)"
      "runScript checkout current target configs st = (Some e, st1)"
    | (checkout_failed) e st1 where "configs \<noteq> []"
      "forEach (\<lambda>c. runTools current c ''after'') configs st = (None, st1)"
      "checkout target = Inl e"
      "runScript checkout current target configs st =
         (Some e, st1\<lparr>events := events st1 @ [Checkout target]\<rparr>)"
    | (before_failed) e st1 st2 ref where "configs \<noteq> []"
      "forEach (\<lambda>c. runTools current c ''after'') configs st = (None, st1)"
      "checkout target = Inr ref"
      "forEach (\<lambda>c. runTools ref c ''before'') configs
         (st1\<lparr>events := events st1 @ [Checkout target]\<rparr>) = (Some e, st2)"
      "runScript checkout current target configs st = (Some e, st2)"
    | (finished) st1 st2 ref where "configs \<noteq> []"
      "forEach (\<lambda>c. runTools current c ''after'') configs st = (None, st1)"
      "checkout target = Inr ref"
      "forEach (\<lambda>c. runTools ref c ''before'') configs
         (st1\<lparr>events := events st1 @ [Checkout target]\<rparr>) = (None, st2)"
      "runScript checkout current target configs st = (None, st2\<lparr>written := Some (files st2)\<rparr>)"
proof (cases "configs = []")
  case True
  then show ?thesis by (intro empty) (simp_all add: runScript_def)
next
  case ne: False
  obtain r1 st1 where a: "forEach (\<lambda>c. runTools current c ''after'') configs st = (r1, st1)"
    by (cases "forEach (\<lambda>c. runTools current c ''after'') configs st")
  show ?thesis
  proof (cases r1)
    case (Some e)
    with ne a show ?thesis by (intro after_failed [of e st1]) (simp_all add: runScript_def)
  next
    case None
    show ?thesis
    proof (cases "checkout target")
      case (Inl e)
      with ne a None show ?thesis
        by (intro checkout_failed [of st1 e]) (simp_all add: runScript_def doOnBranch_def Let_def)
    next
      case (Inr ref)
      obtain r2 st2 where b: "forEach (\<lambda>c. runTools ref c ''before'') configs
         (st1\<lparr>events := events st1 @ [Checkout target]\<rparr>) = (r2, st2)"
        by (cases "forEach (\<lambda>c. runTools ref c ''before'') configs
         (st1\<lparr>events := events st1 @ [Checkout target]\<rparr>)")
      show ?thesis
      proof (cases r2)
        case (Some e)
        with ne a None Inr b show ?thesis
          by (intro before_failed [of st1 ref e st2]) (simp_all add: runScript_def doOnBranch_def Let_def)
      next
        case n2: None
        with ne a None Inr b show ?thesis
          by (intro finished [of st1 ref st2]) (simp_all add: runScript_def doOnBranch_def Let_def)
      qed
    qed
  qed
qed


lemma no_checkout_after: "list_all after_event es \<Longrightarrow> filter is_checkout es = []"
  by (induction es) (auto simp: after_event_def is_checkout_def split: event.splits)

lemma no_checkout_before: "list_all before_event es \<Longrightarrow> filter is_checkout es = []"
  by (induction es) (auto simp: before_event_def is_checkout_def split: event.splits)

lemma runScript_events_shape:
  fixes checkout current target configs
  defines "es \<equiv> events (snd (runScript checkout current target configs initial_linter_state))"
  shows "list_all after_event es \<or>
         (\<exists>A B. es = A @ Checkout target # B \<and> list_all after_event A \<and> list_all before_event B)"
proof (cases rule: runScript_cases [of configs checkout current target initial_linter_state])
  case empty
  then show ?thesis by (simp add: es_def initial_linter_state_def)
next
  case (after_failed e st1)
  from forEach_runTools_Some [OF after_failed(2)] obtain pre f where
    "events st1 = events initial_linter_state @ run_events current ''after'' (pre @ [f])"
    by blast
  with after_failed(3) show ?thesis
    by (simp add: es_def initial_linter_state_def list_all_run_events_after)
next
  case (checkout_failed e st1)
  from forEach_runTools_None [OF checkout_failed(2)]
  have "events st1 = run_events current ''after'' configs"
    by (simp add: initial_linter_state_def)
  with checkout_failed(4)
  have "es = run_events current ''after'' configs @ Checkout target # [] \<and>
        list_all after_event (run_events current ''after'' configs) \<and> list_all before_event []"
    by (simp add: es_def list_all_run_events_after)
  then show ?thesis by blast
next
  case (before_failed e st1 st2 ref)
  from forEach_runTools_None [OF before_failed(2)]
  have a: "events st1 = run_events current ''after'' configs"
    by (simp add: initial_linter_state_def)
  from forEach_runTools_Some [OF before_failed(4)] obtain pre f where
    "events st2 = events (st1\<lparr>events := events st1 @ [Checkout target]\<rparr>) @ run_events ref ''before'' (pre @ [f])"
    by blast
  with a before_failed(5)
  have "es = run_events current ''after'' configs @ Checkout target # run_events ref ''before'' (pre @ [f]) \<and>
        list_all after_event (run_events current ''after'' configs) \<and>
        list_all before_event (run_events ref ''before'' (pre @ [f]))"
    by (simp add: es_def list_all_run_events_after list_all_run_events_before)
  then show ?thesis by blast
next
  case (finished st1 st2 ref)
  from forEach_runTools_None [OF finished(2)]
  have a: "events st1 = run_events current ''after'' configs"
    by (simp add: initial_linter_state_def)
  from forEach_runTools_None [OF finished(4)]
  have "events st2 = events (st1\<lparr>events := events st1 @ [Checkout target]\<rparr>) @ run_events ref ''before'' configs"
    by simp
  with a finished(5)
  have "es = run_events current ''after'' configs @ Checkout target # run_events ref ''before'' configs \<and>
        list_all after_event (run_events current ''after'' configs) \<and>
        list_all before_event (run_events ref ''before'' configs)"
    by (simp add: es_def list_all_run_events_after list_all_run_events_before)
  then show ?thesis by blast
qed

lemma runScript_checkout_once:
  assumes "configs \<noteq> []" and "list_all (succeeds current) configs"
  shows "length (filter is_checkout
           (events (snd (runScript checkout current target configs initial_linter_state)))) = 1"
proof -
  let ?es = "events (snd (runScript checkout current target configs initial_linter_state))"
  have ok: "fst (forEach (\<lambda>c. runTools current c ''after'') configs initial_linter_state) = None"
    using assms(2) by (rule forEach_runTools_succeeds)
  have "\<exists>A B. ?es = A @ Checkout target # B \<and> list_all after_event A \<and> list_all before_event B"
  proof (cases rule: runScript_cases [of configs checkout current target initial_linter_state])
    case empty
    with assms(1) show ?thesis by simp
  next
    case (after_failed e st1)
    with ok show ?thesis by simp
  next
    case (checkout_failed e st1)
    from forEach_runTools_None [OF checkout_failed(2)]
    have "events st1 = run_events current ''after'' configs"
      by (simp add: initial_linter_state_def)
    with checkout_failed(4)
    have "?es = run_events current ''after'' configs @ Checkout target # [] \<and>
          list_all after_event (run_events current ''after'' configs) \<and> list_all before_event []"
      by (simp add: list_all_run_events_after)
    then show ?thesis by blast
  next
    case (before_failed e st1 st2 ref)
    from forEach_runTools_None [OF before_failed(2)]
    have a: "events st1 = run_events current ''after'' configs"
      by (simp add: initial_linter_state_def)
    from forEach_runTools_Some [OF before_failed(4)] obtain pre f where
      "events st2 = events (st1\<lparr>events := events st1 @ [Checkout target]\<rparr>) @ run_events ref ''before'' (pre @ [f])"
      by blast
    with a before_failed(5)
    have "?es = run_events current ''after'' configs @ Checkout target # run_events ref ''before'' (pre @ [f]) \<and>
          list_all after_event (run_events current ''after'' configs) \<and>
          list_all before_event (run_events ref ''before'' (pre @ [f]))"
      by (simp add: list_all_run_events_after list_all_run_events_before)
    then show ?thesis by blast
  next
    case (finished st1 st2 ref)
    from forEach_runTools_None [OF finished(2)]
    have a: "events st1 = run_events current ''after'' configs"
      by (simp add: initial_linter_state_def)
    from forEach_runTools_None [OF finished(4)]
    have "events st2 = events (st1\<lparr>events := events st1 @ [Checkout target]\<rparr>) @ run_events ref ''before'' configs"
      by simp
    with a finished(5)
    have "?es = run_events current ''after'' configs @ Checkout target # run_events ref ''before'' configs \<and>
          list_all after_event (run_events current ''after'' configs) \<and>
          list_all before_event (run_events ref ''before'' configs)"
      by (simp add: list_all_run_events_after list_all_run_events_before)
    then show ?thesis by blast
  qed
  then obtain A B where "?es = A @ Checkout target # B" "list_all after_event A" "list_all before_event B"
    by blast
  then show ?thesis
    by (simp add: no_checkout_after no_checkout_before is_checkout_def)
qed

lemma recorded_written: "recorded t ph (st\<lparr>written := w\<rparr>) = recorded t ph st"
  by (rule ext) (simp add: recorded_def)

lemma recorded_events: "recorded t ph (st\<lparr>events := es\<rparr>) = recorded t ph st"
  by (rule ext) (simp add: recorded_def)

lemma runScript_returns:
  assumes "fst (runScript checkout current target configs st) = None" and "configs \<noteq> []"
  shows "\<exists>ref. checkout target = Inr ref \<and>
           list_all (recorded ref ''before'' (snd (runScript checkout current target configs st))) configs \<and>
           list_all (recorded current ''after'' (snd (runScript checkout current target configs st))) configs"
proof (cases rule: runScript_cases [of configs checkout current target st])
  case empty
  with assms(2) show ?thesis by simp
next
  case (after_failed e st1)
  with assms(1) show ?thesis by simp
next
  case (checkout_failed e st1)
  with assms(1) show ?thesis by simp
next
  case (before_failed e st1 st2 ref)
  with assms(1) show ?thesis by simp
next
  case (finished st1 st2 ref)
  from forEach_runTools_recorded [OF finished(2)]
  have "list_all (recorded current ''after'' st1) configs" .
  then have "list_all (recorded current ''after'' (st1\<lparr>events := events st1 @ [Checkout target]\<rparr>)) configs"
    by (simp add: recorded_events)
  then have "list_all (recorded current ''after'' st2) configs"
    using forEach_runTools_keeps_other [OF finished(4)] by (simp add: list_all_iff)
  with forEach_runTools_recorded [OF finished(4)] finished(3,5) show ?thesis
    by (simp add: recorded_written)
qed

lemma runScript_dom:
  assumes "fst (runScript checkout current target configs st) = None"
  shows "dom (files (snd (runScript checkout current target configs st))) = dom (files st) \<union> set configs \<and>
         written (snd (runScript checkout current target configs st)) =
           Some (files (snd (runScript checkout current target configs st)))"
proof (cases rule: runScript_cases [of configs checkout current target st])
  case empty
  then show ?thesis by simp
next
  case (after_failed e st1)
  with assms(1) show ?thesis by simp
next
  case (checkout_failed e st1)
  with assms(1) show ?thesis by simp
next
  case (before_failed e st1 st2 ref)
  with assms(1) show ?thesis by simp
next
  case (finished st1 st2 ref)
  from forEach_runTools_None [OF finished(2)] forEach_runTools_None [OF finished(4)] finished(5)
  show ?thesis by auto
qed


lemma sample_linter_pr:
  "getLinterResult pr_tree (Some ''readme.md'') =
     ([sample_cmd], Inr (JArray [JObject [(''code'', JString ''R2001'')]]))"
  by code_simp

lemma sample_linter_target: "getLinterResult target_tree (Some ''readme.md'') = ([], Inr (JArray []))"
  by code_simp

lemma sample_runScript:
  "runScript (\<lambda>_. Inr target_tree) pr_tree ''master'' [''readme.md''] initial_linter_state =
     (None, sample_linter_state)"
  by (simp add: runScript_def doOnBranch_def runTools_def updateResult_def Let_def
      sample_linter_pr sample_linter_target initial_linter_state_def sample_linter_state_def
      sample_report_def)

text \<open>
  C5, as the claim states it, fails on the run of the linter before and after: that
  run detects no new file, so a file of the pull request that the target branch does
  not have (a member of the \<open>NewFileSet\<close> of the specification) is a key of the report.
\<close>

theorem C5_dual_report_counterexample:
  "''readme.md'' \<in> NewFileSet target_tree [''readme.md''] \<and>
   ''readme.md'' \<in> dom (files (snd (runScript (\<lambda>_. Inr target_tree) pr_tree ''master''
                                     [''readme.md''] initial_linter_state)))"
proof
  show "''readme.md'' \<in> NewFileSet target_tree [''readme.md'']"
    by (simp add: NewFileSet_def target_tree_def)
next
  show "''readme.md'' \<in> dom (files (snd (runScript (\<lambda>_. Inr target_tree) pr_tree ''master''
                                     [''readme.md''] initial_linter_state)))"
    by (simp add: sample_runScript sample_linter_state_def sample_report_def)
qed

text \<open>
  C5, amended. In every breaking-change run, a file path is in at most one of
  \<open>newFiles\<close> and the keys of \<open>diffFiles\<close>: the files detected as newly added are those
  of \<open>newSwaggers\<close>, and none of them is a key of the findings map. The run of the
  linter before and after detects no new file: when it returns, every file it was
  given is a key of its report.
\<close>

theorem C5_new_files_apart:
  "(diff_loop compare asDiff newSwaggers resolvedMap swaggersToProcess (initial_state ec) = Inr st \<longrightarrow>
      set (newFiles st) \<inter> dom (diffFiles st) = {} \<and>
      newFiles st = filter (\<lambda>s. s \<in> set newSwaggers) swaggersToProcess) \<and>
   (fst (runScript checkout current targetBranch configsToProcess initial_linter_state) = None \<longrightarrow>
      dom (files (snd (runScript checkout current targetBranch configsToProcess initial_linter_state))) =
        set configsToProcess)"
proof (intro conjI impI)
  assume run: "diff_loop compare asDiff newSwaggers resolvedMap swaggersToProcess (initial_state ec) = Inr st"
  from diff_loop_newFiles [OF run]
  have n: "newFiles st = filter (\<lambda>s. s \<in> set newSwaggers) swaggersToProcess"
    and d: "dom (diffFiles st) \<subseteq> {s \<in> set swaggersToProcess. s \<notin> set newSwaggers}"
    by (simp_all add: initial_state_def)
  from n d show "set (newFiles st) \<inter> dom (diffFiles st) = {}" by auto
  from n show "newFiles st = filter (\<lambda>s. s \<in> set newSwaggers) swaggersToProcess" .
next
  assume "fst (runScript checkout current targetBranch configsToProcess initial_linter_state) = None"
  from runScript_dom [OF this]
  show "dom (files (snd (runScript checkout current targetBranch configsToProcess initial_linter_state))) =
        set configsToProcess"
    by (simp add: initial_linter_state_def)
qed

theorem C5_new_files_apart_witness:
  "diff_loop oad_sample readDiff [''c.json''] sample_resolved [''a.json'', ''b.json'', ''c.json'']
     (initial_state 0) = Inr sample_state \<and>
   newFiles sample_state = [''c.json''] \<and>
   set (newFiles sample_state) \<inter> dom (diffFiles sample_state) = {} \<and>
   fst (runScript (\<lambda>_. Inr target_tree) pr_tree ''master'' [''readme.md''] initial_linter_state) = None \<and>
   dom (files (snd (runScript (\<lambda>_. Inr target_tree) pr_tree ''master'' [''readme.md'']
                     initial_linter_state))) = set [''readme.md'']"
proof -
  have ok: "fst (runScript (\<lambda>_. Inr target_tree) pr_tree ''master'' [''readme.md''] initial_linter_state) = None"
    by (simp add: sample_runScript)
  note c5 = C5_new_files_apart [of oad_sample readDiff "[''c.json'']" sample_resolved
      "[''a.json'', ''b.json'', ''c.json'']" 0 sample_state "\<lambda>_. Inr target_tree" pr_tree "''master''"
      "[''readme.md'']"]
  from c5 sample_diff_loop have p: "set (newFiles sample_state) \<inter> dom (diffFiles sample_state) = {}"
    by blast
  from c5 ok have q: "dom (files (snd (runScript (\<lambda>_. Inr target_tree) pr_tree ''master'' [''readme.md'']
                     initial_linter_state))) = set [''readme.md'']"
    by blast
  have n: "newFiles sample_state = [''c.json'']" by (simp add: sample_state_def)
  from sample_diff_loop n p ok q show ?thesis by blast
qed

text \<open>
  C6, as the claim states it, fails on a run without files: the script checks out the
  target branch only when there is a file to process, so that run has no checkout.
\<close>

theorem C6_no_files_counterexample:
  "length (filter is_checkout
     (events (snd (runScript (\<lambda>_. Inr target_tree) pr_tree ''master'' [] initial_linter_state)))) = 0"
  by (simp add: runScript_def initial_linter_state_def)

text \<open>
  C6, amended. In every run of the linter before and after, the checkout is invoked at
  most once, and exactly once when there is a file to process and every run after
  returns; a run without files has no checkout and no run of the tool. Every run
  before comes after that checkout, every run after comes before it, and when the
  script returns, the findings recorded before for every file are those of the linter
  in the one working tree the checkout gave.
\<close>

theorem C6_one_checkout:
  "(list_all after_event
      (events (snd (runScript checkout current targetBranch configsToProcess initial_linter_state))) \<or>
    (\<exists>A B. events (snd (runScript checkout current targetBranch configsToProcess initial_linter_state)) =
             A @ Checkout targetBranch # B \<and>
           list_all after_event A \<and> list_all before_event B)) \<and>
   length (filter is_checkout
     (events (snd (runScript checkout current targetBranch configsToProcess initial_linter_state)))) \<le> 1 \<and>
   (configsToProcess \<noteq> [] \<and> list_all (succeeds current) configsToProcess \<longrightarrow>
      length (filter is_checkout
        (events (snd (runScript checkout current targetBranch configsToProcess initial_linter_state)))) = 1) \<and>
   (configsToProcess = [] \<longrightarrow>
      events (snd (runScript checkout current targetBranch configsToProcess initial_linter_state)) = []) \<and>
   (fst (runScript checkout current targetBranch configsToProcess initial_linter_state) = None \<and>
    configsToProcess \<noteq> [] \<longrightarrow>
      (\<exists>ref. checkout targetBranch = Inr ref \<and>
         list_all (recorded ref ''before''
           (snd (runScript checkout current targetBranch configsToProcess initial_linter_state)))
           configsToProcess))"
proof -
  let ?r = "runScript checkout current targetBranch configsToProcess initial_linter_state"
  have shape: "list_all after_event (events (snd ?r)) \<or>
    (\<exists>A B. events (snd ?r) = A @ Checkout targetBranch # B \<and>
           list_all after_event A \<and> list_all before_event B)"
    by (rule runScript_events_shape)
  then have most: "length (filter is_checkout (events (snd ?r))) \<le> 1"
  proof
    assume "list_all after_event (events (snd ?r))"
    then show ?thesis by (simp add: no_checkout_after)
  next
    assume "\<exists>A B. events (snd ?r) = A @ Checkout targetBranch # B \<and>
           list_all after_event A \<and> list_all before_event B"
    then obtain A B where "events (snd ?r) = A @ Checkout targetBranch # B"
      "list_all after_event A" "list_all before_event B"
      by blast
    then show ?thesis
      by (simp add: no_checkout_after no_checkout_before is_checkout_def)
  qed
  have once: "length (filter is_checkout (events (snd ?r))) = 1"
    if "configsToProcess \<noteq> [] \<and> list_all (succeeds current) configsToProcess"
    using that by (intro runScript_checkout_once) simp_all
  have none: "events (snd ?r) = []" if "configsToProcess = []"
    using that by (simp add: runScript_def initial_linter_state_def)
  have before: "\<exists>ref. checkout targetBranch = Inr ref \<and>
      list_all (recorded ref ''before'' (snd ?r)) configsToProcess"
    if "fst ?r = None \<and> configsToProcess \<noteq> []"
  proof -
    from that have a: "fst ?r = None" and b: "configsToProcess \<noteq> []" by simp_all
    from runScript_returns [OF a b] obtain ref where "checkout targetBranch = Inr ref"
      and "list_all (recorded ref ''before'' (snd ?r)) configsToProcess"
      by auto
    then show ?thesis by auto
  qed
  from shape most once none before show ?thesis by blast
qed

theorem C6_one_checkout_witness:
  "events (snd (runScript (\<lambda>_. Inr target_tree) pr_tree ''master'' [''readme.md'']
                  initial_linter_state)) =
     [RunTools ''readme.md'' ''after'', Exec sample_cmd, Checkout ''master'',
      RunTools ''readme.md'' ''before''] \<and>
   length (filter is_checkout
     (events (snd (runScript (\<lambda>_. Inr target_tree) pr_tree ''master'' [''readme.md'']
                     initial_linter_state)))) = 1 \<and>
   list_all (recorded target_tree ''before''
     (snd (runScript (\<lambda>_. Inr target_tree) pr_tree ''master'' [''readme.md''] initial_linter_state)))
     [''readme.md''] \<and>
   events (snd (runScript (\<lambda>_. Inr target_tree) pr_tree ''master'' [] initial_linter_state)) = []"
proof -
  have no_files: "events (snd (runScript (\<lambda>_. Inr target_tree) pr_tree ''master'' []
      initial_linter_state)) = []"
    using C6_one_checkout [of "\<lambda>_. Inr target_tree" pr_tree "''master''" "[]"] by blast
  let ?r = "runScript (\<lambda>_. Inr target_tree) pr_tree ''master'' [''readme.md''] initial_linter_state"
  have s: "[''readme.md''] \<noteq> [] \<and> list_all (succeeds pr_tree) [''readme.md'']"
    by (simp add: succeeds_def sample_linter_pr)
  have ok: "fst ?r = None \<and> [''readme.md''] \<noteq> []"
    by (simp add: sample_runScript)
  note c6 = C6_one_checkout [of "\<lambda>_. Inr target_tree" pr_tree "''master''" "[''readme.md'']"]
  from c6 s have one: "length (filter is_checkout (events (snd ?r))) = 1" by blast
  from c6 ok have "\<exists>ref. Inr target_tree = (Inr ref :: error + tree) \<and>
      list_all (recorded ref ''before'' (snd ?r)) [''readme.md'']"
    by blast
  then have rec: "list_all (recorded target_tree ''before'' (snd ?r)) [''readme.md'']" by auto
  have ev: "events (snd ?r) = [RunTools ''readme.md'' ''after'', Exec sample_cmd, Checkout ''master'',
      RunTools ''readme.md'' ''before'']"
    by (simp add: sample_runScript sample_linter_state_def)
  from ev one rec no_files show ?thesis by blast
qed

text \<open>
  C10. For every swagger path that does not exist on disk, \<open>getLinterResult\<close> returns
  the empty sequence of findings and executes no command; so, in a run before and
  after that returns, a file absent from the target branch is a key of the written
  report, with the empty sequence as its findings before.
\<close>

theorem C10_absent_file:
  "(\<not> is_blank (Some swaggerPath) \<and> \<not> existsSync t swaggerPath \<longrightarrow>
      getLinterResult t (Some swaggerPath) = ([], Inr (JArray []))) \<and>
   (fst (runScript checkout current targetBranch configsToProcess st) = None \<and>
    checkout targetBranch = Inr ref \<and> f \<in> set configsToProcess \<and> \<not> existsSync ref f \<longrightarrow>
      (\<exists>fs. files (snd (runScript checkout current targetBranch configsToProcess st)) f = Some fs \<and>
            fs ''before'' = Some (JArray [])) \<and>
      written (snd (runScript checkout current targetBranch configsToProcess st)) =
        Some (files (snd (runScript checkout current targetBranch configsToProcess st))))"
proof (intro conjI impI)
  assume "\<not> is_blank (Some swaggerPath) \<and> \<not> existsSync t swaggerPath"
  then show "getLinterResult t (Some swaggerPath) = ([], Inr (JArray []))"
    by (simp add: getLinterResult_def)
next
  let ?r = "runScript checkout current targetBranch configsToProcess st"
  assume h: "fst ?r = None \<and> checkout targetBranch = Inr ref \<and> f \<in> set configsToProcess \<and>
    \<not> existsSync ref f"
  then have ne: "configsToProcess \<noteq> []" by auto
  from h have ok: "fst ?r = None" by simp
  from runScript_returns [OF ok ne] obtain ref' where "checkout targetBranch = Inr ref'"
    and "list_all (recorded ref' ''before'' (snd ?r)) configsToProcess"
    by auto
  with h have "list_all (recorded ref ''before'' (snd ?r)) configsToProcess" by simp
  with h have "recorded ref ''before'' (snd ?r) f" by (simp add: list_all_iff)
  then obtain fs v where fs: "files (snd ?r) f = Some fs" "fs ''before'' = Some v"
    and v: "snd (getLinterResult ref (Some f)) = Inr v"
    unfolding recorded_def by blast
  from v h have "v = JArray []"
    by (simp add: getLinterResult_def split: if_splits)
  with fs show "\<exists>fs. files (snd ?r) f = Some fs \<and> fs ''before'' = Some (JArray [])" by simp
  from h runScript_dom [of checkout current targetBranch configsToProcess st]
  show "written (snd ?r) = Some (files (snd ?r))" by simp
qed

theorem C10_absent_file_witness:
  "getLinterResult target_tree (Some ''readme.md'') = ([], Inr (JArray [])) \<and>
   (\<exists>fs. files (snd (runScript (\<lambda>_. Inr target_tree) pr_tree ''master'' [''readme.md'']
                        initial_linter_state)) ''readme.md'' = Some fs \<and>
         fs ''before'' = Some (JArray [])) \<and>
   written (snd (runScript (\<lambda>_. Inr target_tree) pr_tree ''master'' [''readme.md'']
                   initial_linter_state)) = Some sample_report"
proof -
  let ?r = "runScript (\<lambda>_. Inr target_tree) pr_tree ''master'' [''readme.md''] initial_linter_state"
  have p: "\<not> is_blank (Some ''readme.md'') \<and> \<not> existsSync target_tree ''readme.md''"
    by (simp add: is_blank_def trim_def is_space_def target_tree_def)
  have ok: "fst ?r = None" by (simp add: sample_runScript)
  from ok p have h: "fst ?r = None \<and> (Inr target_tree :: error + tree) = Inr target_tree \<and>
      ''readme.md'' \<in> set [''readme.md''] \<and> \<not> existsSync target_tree ''readme.md''"
    by simp
  note c10 = C10_absent_file [of "''readme.md''" target_tree "\<lambda>_. Inr target_tree" pr_tree "''master''"
      "[''readme.md'']" initial_linter_state target_tree "''readme.md''"]
  from c10 p have a: "getLinterResult target_tree (Some ''readme.md'') = ([], Inr (JArray []))"
    by blast
  from c10 h have b: "\<exists>fs. files (snd ?r) ''readme.md'' = Some fs \<and> fs ''before'' = Some (JArray [])"
    by blast
  have w: "written (snd ?r) = Some sample_report"
    by (simp add: sample_runScript sample_linter_state_def)
  from a b w show ?thesis by blast
qed

section \<open>The model validation pipeline and the failures of a run\<close>

text \<open>
  C7. For every raw record, the classifier emits at most two locations, a source
  location (\<open>Url\<close>) and a compiled-JSON location (\<open>JsonUrl\<close>), at most one of each; a
  location is emitted exactly when both its path and its position are present in the
  record, and with an absent path or an absent position it is left out.
\<close>

theorem C7_locations:
  assumes "toPipelineResultData u now it = Inr r"
  shows "length (paths r) \<le> 2 \<and>
         list_all (\<lambda>p. tag p = ''Url'' \<or> tag p = ''JsonUrl'') (paths r) \<and>
         length (filter (\<lambda>p. tag p = ''Url'') (paths r)) \<le> 1 \<and>
         length (filter (\<lambda>p. tag p = ''JsonUrl'') (paths r)) \<le> 1 \<and>
         (list_ex (\<lambda>p. tag p = ''Url'') (paths r) \<longleftrightarrow>
            (\<exists>d. details it = Some d \<and> truthy (url d) \<and> position d \<noteq> None)) \<and>
         (list_ex (\<lambda>p. tag p = ''JsonUrl'') (paths r) \<longleftrightarrow>
            (\<exists>d. details it = Some d \<and> truthy (jsonUrl d) \<and> jsonPosition d \<noteq> None))"
proof (cases "details it")
  case None
  with assms show ?thesis by (simp add: toPipelineResultData_def)
next
  case (Some d)
  with assms have "paths r =
      (if truthy (url d) \<and> position d \<noteq> None
       then [\<lparr>tag = ''Url'', path = location_path u (the (url d)) (the (position d))\<rparr>]
       else []) @
      (if truthy (jsonUrl d) \<and> jsonPosition d \<noteq> None
       then [\<lparr>tag = ''JsonUrl'', path = location_path u (the (jsonUrl d)) (the (jsonPosition d))\<rparr>]
       else [])"
    by (auto simp: toPipelineResultData_def)
  with Some show ?thesis by simp
qed

lemma sample_toPipelineResultData:
  "toPipelineResultData sample_utils 0 sample_error = Inr sample_record"
proof -
  have n: "String_int 12 = ''12''" by code_simp
  show ?thesis
    by (simp add: toPipelineResultData_def sample_error_def sample_utils_def location_path_def
        or_empty_def truthy_def sample_record_def n)
qed

theorem C7_locations_witness:
  "toPipelineResultData sample_utils 0 sample_error = Inr sample_record \<and>
   paths sample_record = [\<lparr>tag = ''Url'', path = ''spec/a.json#L12''\<rparr>] \<and>
   length (paths sample_record) \<le> 2 \<and>
   list_ex (\<lambda>p. tag p = ''Url'') (paths sample_record) \<and>
   \<not> list_ex (\<lambda>p. tag p = ''JsonUrl'') (paths sample_record)"
proof -
  note c7 = C7_locations [OF sample_toPipelineResultData]
  have d: "details sample_error =
      Some \<lparr>message = Some ''Expected type string'', url = Some ''spec/a.json'',
            position = Some \<lparr>line = 12, column = 5\<rparr>,
            jsonUrl = Some ''spec/a.resolved.json'', jsonPosition = None\<rparr>"
    by (simp add: sample_error_def)
  have l: "length (paths sample_record) \<le> 2" by (rule c7 [THEN conjunct1])
  have "list_ex (\<lambda>p. tag p = ''Url'') (paths sample_record) \<longleftrightarrow>
      (\<exists>d. details sample_error = Some d \<and> truthy (url d) \<and> position d \<noteq> None)"
    by (rule c7 [THEN conjunct2, THEN conjunct2, THEN conjunct2, THEN conjunct2, THEN conjunct1])
  then have x: "list_ex (\<lambda>p. tag p = ''Url'') (paths sample_record)"
    by (simp add: d truthy_def)
  have "list_ex (\<lambda>p. tag p = ''JsonUrl'') (paths sample_record) \<longleftrightarrow>
      (\<exists>d. details sample_error = Some d \<and> truthy (jsonUrl d) \<and> jsonPosition d \<noteq> None)"
    by (rule c7 [THEN conjunct2, THEN conjunct2, THEN conjunct2, THEN conjunct2, THEN conjunct2])
  then have y: "\<not> list_ex (\<lambda>p. tag p = ''JsonUrl'') (paths sample_record)"
    by (simp add: d)
  have p: "paths sample_record = [\<lparr>tag = ''Url'', path = ''spec/a.json#L12''\<rparr>]"
    by (simp add: sample_record_def)
  from sample_toPipelineResultData p l x y show ?thesis by blast
qed


















end
